theory Spec2Isabelle
  imports Main "HOL-Library.Word"
begin

unbundle bit_operations_syntax

section \<open>response.cpp: header lookup\<close>

text \<open>
  A \<open>lift::header\<close> is declared in a header file that is not among the sources; the
  lookup only reads its \<open>name()\<close>. It is modelled as a record of the name and the
  value. A \<open>response\<close> keeps its headers in the vector \<open>m_headers\<close>, in the order
  in which they were stored.
\<close>

record header =
  name :: string
  val :: string

record response =
  m_headers :: "header list"
  m_data :: string

text \<open>
  \<open>response::header(name)\<close> walks \<open>m_headers\<close> from the front and returns at the first
  element whose name equals the argument; after the loop it returns \<open>std::nullopt\<close>.
  The method is \<open>const\<close>: its only result is the optional reference.
\<close>

fun header_loop :: "header list \<Rightarrow> string \<Rightarrow> header option" where
  "header_loop [] n = None"
| "header_loop (h # hs) n = (if name h = n then Some h else header_loop hs n)"

definition response_header :: "response \<Rightarrow> string \<Rightarrow> header option" where
  "response_header r n = header_loop (m_headers r) n"

section \<open>EventLoop.cpp: the event loop\<close>

subsection \<open>Constants of the two libraries\<close>

text \<open>
  The macros and enumerators of \<open>curl/multi.h\<close> and \<open>uv.h\<close> that the source names,
  with the values those headers give them. Socket descriptors, result codes, event
  masks and the \<open>status\<close> and \<open>events\<close> arguments are C \<open>int\<close>s; they are modelled
  as \<open>int\<close>, whose bitwise operations agree with C's on the masks used here.
\<close>

definition CURL_SOCKET_TIMEOUT :: int where "CURL_SOCKET_TIMEOUT = -1"
definition CURLM_CALL_MULTI_PERFORM :: int where "CURLM_CALL_MULTI_PERFORM = -1"
definition CURLM_OK :: int where "CURLM_OK = 0"
definition CURL_POLL_IN :: int where "CURL_POLL_IN = 1"
definition CURL_POLL_OUT :: int where "CURL_POLL_OUT = 2"
definition CURL_POLL_REMOVE :: int where "CURL_POLL_REMOVE = 4"
definition CURL_CSELECT_IN :: int where "CURL_CSELECT_IN = 1"
definition CURL_CSELECT_OUT :: int where "CURL_CSELECT_OUT = 2"
definition CURL_CSELECT_ERR :: int where "CURL_CSELECT_ERR = 4"
definition UV_READABLE :: int where "UV_READABLE = 1"
definition UV_WRITABLE :: int where "UV_WRITABLE = 2"
definition CURLMSG_DONE :: int where "CURLMSG_DONE = 1"

subsection \<open>Data\<close>

text \<open>
  A \<open>CurlContext\<close> binds one socket to one reactor poll handle. The poll handle is a
  member of the object; the model names it by a number that is fresh for every context
  constructed. The third member, the reference \<open>m_event_loop\<close>, always denotes the
  one loop and is left out.

  A \<open>CURLMsg\<close> is what \<open>curl_multi_info_read\<close> hands out: the kind of message,
  the easy handle it is about, and that transfer's result code.

  The engine calls back into the loop through the two functions registered with
  \<open>CURLMOPT_TIMERFUNCTION\<close> and \<open>CURLMOPT_SOCKETFUNCTION\<close>. A notification is one
  such callback, with the arguments the engine chooses: the timeout, or the socket, the
  action and the per-socket pointer \<open>socketp\<close>.
\<close>

record CurlContext =
  m_sock_fd :: int
  m_poll_handle :: nat

record CURLMsg =
  msg :: int
  easy_handle :: nat
  data_result :: nat

datatype notification =
    TimerFunction int
  | SocketFunction int int "CurlContext option"

text \<open>
  The reactor handles owned by the loop (\<open>m_async\<close>, \<open>m_timeout_timer\<close>) and those of
  the socket contexts, and the callbacks the source registers with the reactor.
\<close>

datatype uv_handle = Async | Timeout_timer | Poll nat

datatype uv_callback =
    Requests_accept_async
  | On_uv_timeout_callback
  | On_uv_curl_perform_callback
  | Uv_close_callback
  | CurlContext_on_close

text \<open>
  A \<open>Request\<close> owns its \<open>RequestHandle\<close> through a \<open>std::unique_ptr\<close>: the pointer
  is empty after \<open>release()\<close> or a move. The class \<open>RequestHandle\<close> is declared
  outside these sources, so the handle is a type parameter \<open>'h\<close>.
\<close>

record 'h Request =
  m_request_handle :: "'h option"

text \<open>
  The calls the loop makes to its collaborators (reactor, engine, mutex, request and
  user callback), in the order made. A call during which the collaborator calls back
  into the loop carries the calls made inside it: the engine's driver, add and remove
  functions run the timer and socket callbacks before they return, and the user's
  \<open>OnComplete\<close> may submit requests.
\<close>

datatype 'h call =
    Uv_timer_stop
  | Uv_timer_start uv_callback int int
  | Uv_close uv_handle uv_callback
  | Uv_async_send
  | Uv_stop
  | Uv_poll_init_socket nat int
  | Uv_poll_start nat int uv_callback
  | Uv_poll_stop nat
  | Sleep_for_1ms
  | Thread_join
  | Mutex_lock
  | Mutex_unlock
  | Curl_multi_socket_action int int int "'h call list"
  | Curl_multi_info_read "CURLMsg option"
  | Curl_easy_getinfo_private nat
  | Curl_multi_remove_handle nat "'h call list"
  | Curl_multi_add_handle nat "'h call list"
  | Curl_multi_assign int "CurlContext option"
  | Request_prepareForPerform 'h
  | Request_setRequestStatus 'h nat
  | IRequestCb_OnComplete "'h Request" "'h call list"

text \<open>
  The members of \<open>EventLoop\<close> that the functions below read or write. The mutex
  \<open>m_pending_requests_lock\<close> is \<open>True\<close> while held. \<open>m_cmh\<close> is the state of the
  engine, of a type \<open>'e\<close> that the engine chooses. \<open>m_active_request_count\<close> is a
  \<open>uint64_t\<close>. \<open>next_poll_handle\<close> numbers the poll handles of the contexts
  allocated with \<open>new\<close>.
\<close>

record ('e, 'h) EventLoop =
  m_is_running :: bool
  m_active_request_count :: "64 word"
  m_pending_requests_lock :: bool
  m_pending_requests :: "'h Request list"
  m_cmh :: 'e
  m_async_closed :: bool
  m_timeout_timer_closed :: bool
  next_poll_handle :: nat

text \<open>
  What the loop is linked against and does not define: the transfer engine, the methods
  of \<open>RequestHandle\<close>, and the user's completion callback. They are parameters of
  every function of the model.
  \<^item> The three engine functions that may call back return the notifications they deliver
    before returning, together with their own result and the engine's next state. The
    callbacks then run in that order on the engine's next state.
  \<^item> \<open>curlinfo_private\<close> is \<open>curl_easy_getinfo(_, CURLINFO_PRIVATE, _)\<close>: the request
    handle stored in the easy handle's private slot.
  \<^item> \<open>prepareForPerform\<close> returns the prepared handle, or \<open>None\<close> when it throws.
  \<^item> \<open>OnComplete\<close> returns the requests that the user's callback submits with
    \<open>AddRequest\<close> before it returns, in order. The callback may read the public
    \<open>GetActiveRequestCount()\<close>; its second argument is the count it reads.
\<close>

record ('e, 'h) collaborators =
  curl_multi_socket_action :: "'e \<Rightarrow> int \<Rightarrow> int \<Rightarrow> notification list \<times> int \<times> 'e"
  curl_multi_info_read :: "'e \<Rightarrow> CURLMsg option \<times> 'e"
  curl_multi_add_handle :: "'e \<Rightarrow> nat \<Rightarrow> notification list \<times> 'e"
  curl_multi_remove_handle :: "'e \<Rightarrow> nat \<Rightarrow> notification list \<times> 'e"
  curl_multi_assign :: "'e \<Rightarrow> int \<Rightarrow> CurlContext option \<Rightarrow> 'e"
  curlinfo_private :: "'e \<Rightarrow> nat \<Rightarrow> 'h"
  m_curl_handle :: "'h \<Rightarrow> nat"
  prepareForPerform :: "'h \<Rightarrow> 'h option"
  setRequestStatus :: "'h \<Rightarrow> nat \<Rightarrow> 'h"
  OnComplete :: "'h Request \<Rightarrow> 64 word \<Rightarrow> 'h Request list"

subsection \<open>Outcomes\<close>

text \<open>
  A function of the loop returns with the calls it made and the loop's new state, or it
  does not return:
  \<^item> \<open>Deadlock\<close>: the thread locks the mutex it already holds (a \<open>std::mutex\<close> is not
    recursive) and blocks for good;
  \<^item> \<open>Spins_forever\<close>: the spin wait of \<open>Stop\<close> never sees its condition fail;
  \<^item> \<open>NullDereference\<close>: an empty \<open>unique_ptr\<close> or a null context is dereferenced;
  \<^item> \<open>Threw\<close>: an exception leaves the function, with the state at the throw;
  \<^item> \<open>OutOfFuel\<close>: the bound on nested driver calls and loop iterations was reached
    (the engine may keep the loops going without end, so they are bounded by a counter).
  Each of the first four carries the calls made up to that point.
\<close>

datatype ('e, 'h) failure =
    OutOfFuel
  | Deadlock "'h call list"
  | Spins_forever "'h call list"
  | NullDereference "'h call list"
  | Threw "'h call list" "('e, 'h) EventLoop"

type_synonym ('e, 'h) result = "('e, 'h) failure + 'h call list \<times> ('e, 'h) EventLoop"

fun after :: "'h call list \<Rightarrow> ('e, 'h) failure \<Rightarrow> ('e, 'h) failure" where
  "after t OutOfFuel = OutOfFuel"
| "after t (Deadlock u) = Deadlock (t @ u)"
| "after t (Spins_forever u) = Spins_forever (t @ u)"
| "after t (NullDereference u) = NullDereference (t @ u)"
| "after t (Threw u s) = Threw (t @ u) s"

definition and_then ::
  "('e, 'h) result \<Rightarrow> (('e, 'h) EventLoop \<Rightarrow> ('e, 'h) result) \<Rightarrow> ('e, 'h) result" where
  "and_then r f =
     (case r of
        Inl e \<Rightarrow> Inl e
      | Inr (t, s) \<Rightarrow>
          (case f s of Inl e \<Rightarrow> Inl (after t e) | Inr (u, s') \<Rightarrow> Inr (t @ u, s')))"

fun inside_failure :: "('h call list \<Rightarrow> 'h call) \<Rightarrow> ('e, 'h) failure \<Rightarrow> ('e, 'h) failure" where
  "inside_failure c OutOfFuel = OutOfFuel"
| "inside_failure c (Deadlock u) = Deadlock [c u]"
| "inside_failure c (Spins_forever u) = Spins_forever [c u]"
| "inside_failure c (NullDereference u) = NullDereference [c u]"
| "inside_failure c (Threw u s) = Threw [c u] s"

definition inside :: "('h call list \<Rightarrow> 'h call) \<Rightarrow> ('e, 'h) result \<Rightarrow> ('e, 'h) result" where
  "inside c r = (case r of Inl e \<Rightarrow> Inl (inside_failure c e) | Inr (t, s) \<Rightarrow> Inr ([c t], s))"

definition emit :: "'h call \<Rightarrow> ('e, 'h) EventLoop \<Rightarrow> ('e, 'h) result" where
  "emit c s = Inr ([c], s)"

subsection \<open>Submission\<close>

text \<open>
  \<open>EventLoop::AddRequest\<close>: prepare the request, then append it to
  \<open>m_pending_requests\<close> under a \<open>lock_guard\<close>, then \<open>uv_async_send\<close>. The model
  follows one thread at a time, so the mutex is found held only when the caller is inside
  the critical section of \<open>requests_accept_async\<close> on the same thread.

  \<open>submit_all\<close> is the user's callback body as far as the loop sees it: the
  submissions it makes, one after the other.
\<close>

definition AddRequest ::
  "('e, 'h) collaborators \<Rightarrow> ('e, 'h) EventLoop \<Rightarrow> 'h Request \<Rightarrow> ('e, 'h) result" where
  "AddRequest env s request =
     (case m_request_handle request of
        None \<Rightarrow> Inl (NullDereference [])
      | Some h \<Rightarrow>
          (case prepareForPerform env h of
             None \<Rightarrow> Inl (Threw [Request_prepareForPerform h] s)
           | Some h' \<Rightarrow>
               and_then (emit (Request_prepareForPerform h) s) (\<lambda>s1.
               if m_pending_requests_lock s1 then Inl (Deadlock [Mutex_lock])
               else
                 and_then (emit Mutex_lock (s1\<lparr>m_pending_requests_lock := True\<rparr>)) (\<lambda>s2.
                 and_then (emit Mutex_unlock
                   (s2\<lparr>m_pending_requests := m_pending_requests s2 @ [\<lparr>m_request_handle = Some h'\<rparr>],
                       m_pending_requests_lock := False\<rparr>)) (\<lambda>s3.
                 emit Uv_async_send s3)))))"

fun submit_all ::
  "('e, 'h) collaborators \<Rightarrow> ('e, 'h) EventLoop \<Rightarrow> 'h Request list \<Rightarrow> ('e, 'h) result" where
  "submit_all env s [] = Inr ([], s)"
| "submit_all env s (r # rs) = and_then (AddRequest env s r) (\<lambda>s1. submit_all env s1 rs)"

subsection \<open>Socket contexts and the socket callback\<close>

text \<open>
  The constructor of \<open>CurlContext\<close> initialises the poll handle on the socket;
  \<open>Close\<close> stops polling and asks the reactor to close the handle, with \<open>on_close\<close>
  (which deletes the context) as the acknowledgement.
\<close>

definition CurlContext_new ::
  "('e, 'h) EventLoop \<Rightarrow> int \<Rightarrow> 'h call list \<times> ('e, 'h) EventLoop \<times> CurlContext" where
  "CurlContext_new s sock_fd =
     (let c = \<lparr>m_sock_fd = sock_fd, m_poll_handle = next_poll_handle s\<rparr>
      in ([Uv_poll_init_socket (m_poll_handle c) sock_fd],
          s\<lparr>next_poll_handle := Suc (next_poll_handle s)\<rparr>, c))"

definition CurlContext_Close :: "CurlContext \<Rightarrow> 'h call list" where
  "CurlContext_Close c =
     [Uv_poll_stop (m_poll_handle c), Uv_close (Poll (m_poll_handle c)) CurlContext_on_close]"

text \<open>
  \<open>curl_handle_socket_actions\<close>. The first block finds or allocates the context for
  \<open>CURL_POLL_IN\<close> and \<open>CURL_POLL_OUT\<close>; the \<open>switch\<close> follows. \<open>curl_context\<close> is
  null on entry to the switch for every other action.
\<close>

definition curl_handle_socket_actions ::
  "('e, 'h) collaborators \<Rightarrow> ('e, 'h) EventLoop \<Rightarrow> int \<Rightarrow> int \<Rightarrow> CurlContext option
     \<Rightarrow> ('e, 'h) result" where
  "curl_handle_socket_actions env s socket action socketp =
     (let (t1, s1, curl_context) =
        (if action = CURL_POLL_IN \<or> action = CURL_POLL_OUT then
           (case socketp of
              Some c \<Rightarrow> ([], s, Some c)
            | None \<Rightarrow>
                (case CurlContext_new s socket of (t, s', c) \<Rightarrow>
                   (t @ [Curl_multi_assign socket (Some c)],
                    s'\<lparr>m_cmh := curl_multi_assign env (m_cmh s') socket (Some c)\<rparr>, Some c)))
         else ([], s, None))
      in
        if action = CURL_POLL_IN then
          (case curl_context of
             None \<Rightarrow> Inl (NullDereference t1)
           | Some c \<Rightarrow>
               Inr (t1 @ [Uv_poll_start (m_poll_handle c) UV_READABLE On_uv_curl_perform_callback], s1))
        else if action = CURL_POLL_OUT then
          (case curl_context of
             None \<Rightarrow> Inl (NullDereference t1)
           | Some c \<Rightarrow>
               Inr (t1 @ [Uv_poll_start (m_poll_handle c) UV_WRITABLE On_uv_curl_perform_callback], s1))
        else if action = CURL_POLL_REMOVE then
          (case socketp of
             Some c \<Rightarrow>
               Inr (t1 @ CurlContext_Close c @ [Curl_multi_assign socket None],
                    s1\<lparr>m_cmh := curl_multi_assign env (m_cmh s1) socket None\<rparr>)
           | None \<Rightarrow> Inr (t1, s1))
        else Inr (t1, s1))"

subsection \<open>The timer callback and the engine driver\<close>

text \<open>
  \<open>curl_start_timeout\<close> reaches \<open>EventLoop::checkActions\<close> through its
  \<open>user_data\<close> pointer, and \<open>checkActions\<close> reaches \<open>curl_start_timeout\<close> through
  the engine. The model ties this knot with a counter: the functions between the two
  take the loop's driver as their first argument, and \<open>checkActions (Suc n)\<close> passes
  them \<open>checkActions n\<close>.
\<close>

type_synonym ('e, 'h) driver = "('e, 'h) EventLoop \<Rightarrow> int \<Rightarrow> int \<Rightarrow> ('e, 'h) result"

definition curl_start_timeout ::
  "('e, 'h) driver \<Rightarrow> ('e, 'h) EventLoop \<Rightarrow> int \<Rightarrow> ('e, 'h) result" where
  "curl_start_timeout event_loop_checkActions s timeout_ms =
     and_then (emit Uv_timer_stop s) (\<lambda>s1.
     if timeout_ms > 0 then emit (Uv_timer_start On_uv_timeout_callback timeout_ms 0) s1
     else if timeout_ms = 0 then event_loop_checkActions s1 CURL_SOCKET_TIMEOUT 0
     else Inr ([], s1))"

fun callbacks ::
  "('e, 'h) driver \<Rightarrow> ('e, 'h) collaborators \<Rightarrow> ('e, 'h) EventLoop \<Rightarrow> notification list
     \<Rightarrow> ('e, 'h) result" where
  "callbacks chk env s [] = Inr ([], s)"
| "callbacks chk env s (x # xs) =
     and_then
       (case x of
          TimerFunction timeout_ms \<Rightarrow> curl_start_timeout chk s timeout_ms
        | SocketFunction socket action socketp \<Rightarrow>
            curl_handle_socket_actions env s socket action socketp) (\<lambda>s1.
     callbacks chk env s1 xs)"

text \<open>
  The \<open>do ... while (curl_code == CURLM_CALL_MULTI_PERFORM)\<close> loop of
  \<open>checkActions\<close>, at most \<open>n\<close> iterations.
\<close>

fun socket_action_loop ::
  "('e, 'h) driver \<Rightarrow> ('e, 'h) collaborators \<Rightarrow> nat \<Rightarrow> ('e, 'h) EventLoop \<Rightarrow> int \<Rightarrow> int
     \<Rightarrow> ('e, 'h) result" where
  "socket_action_loop chk env 0 s socket event_bitmask = Inl OutOfFuel"
| "socket_action_loop chk env (Suc n) s socket event_bitmask =
     (case curl_multi_socket_action env (m_cmh s) socket event_bitmask of
        (notes, curl_code, e) \<Rightarrow>
          and_then (inside (Curl_multi_socket_action socket event_bitmask curl_code)
                      (callbacks chk env (s\<lparr>m_cmh := e\<rparr>) notes)) (\<lambda>s1.
          if curl_code = CURLM_CALL_MULTI_PERFORM
          then socket_action_loop chk env n s1 socket event_bitmask
          else Inr ([], s1)))"

text \<open>
  The body of \<open>if (message->msg == CURLMSG_DONE)\<close>: the statements in source order.
\<close>

definition done_message ::
  "('e, 'h) driver \<Rightarrow> ('e, 'h) collaborators \<Rightarrow> ('e, 'h) EventLoop \<Rightarrow> CURLMsg
     \<Rightarrow> ('e, 'h) result" where
  "done_message chk env s message =
     (let easy_handle = CURLMsg.easy_handle message;
          easy_result = data_result message;
          raw_request_handle_ptr = curlinfo_private env (m_cmh s) easy_handle
      in
        and_then (emit (Curl_easy_getinfo_private easy_handle) s) (\<lambda>s1.
        case curl_multi_remove_handle env (m_cmh s1) easy_handle of (notes, e) \<Rightarrow>
          and_then (inside (Curl_multi_remove_handle easy_handle)
                      (callbacks chk env (s1\<lparr>m_cmh := e\<rparr>) notes)) (\<lambda>s2.
          let request = \<lparr>m_request_handle =
                           Some (setRequestStatus env raw_request_handle_ptr easy_result)\<rparr>
          in
            and_then (emit (Request_setRequestStatus raw_request_handle_ptr easy_result) s2) (\<lambda>s3.
            and_then (inside (IRequestCb_OnComplete request)
                        (submit_all env s3
                           (OnComplete env request (m_active_request_count s3)))) (\<lambda>s4.
            Inr ([], s4\<lparr>m_active_request_count := m_active_request_count s4 - 1\<rparr>))))))"

text \<open>
  The \<open>while ((message = curl_multi_info_read(...)))\<close> loop, at most \<open>n\<close> messages; and
  \<open>EventLoop::checkActions(socket, event_bitmask)\<close> itself.
\<close>

fun info_read_loop ::
  "('e, 'h) driver \<Rightarrow> ('e, 'h) collaborators \<Rightarrow> nat \<Rightarrow> ('e, 'h) EventLoop
     \<Rightarrow> ('e, 'h) result" where
  "info_read_loop chk env 0 s = Inl OutOfFuel"
| "info_read_loop chk env (Suc n) s =
     (case curl_multi_info_read env (m_cmh s) of
        (None, e) \<Rightarrow> emit (Curl_multi_info_read None) (s\<lparr>m_cmh := e\<rparr>)
      | (Some message, e) \<Rightarrow>
          and_then (emit (Curl_multi_info_read (Some message)) (s\<lparr>m_cmh := e\<rparr>)) (\<lambda>s1.
          and_then (if msg message = CURLMSG_DONE then done_message chk env s1 message
                    else Inr ([], s1)) (\<lambda>s2.
          info_read_loop chk env n s2)))"

primrec checkActions :: "nat \<Rightarrow> ('e, 'h) collaborators \<Rightarrow> ('e, 'h) driver" where
  "checkActions 0 env = (\<lambda>s socket event_bitmask. Inl OutOfFuel)"
| "checkActions (Suc n) env = (\<lambda>s socket event_bitmask.
     and_then (socket_action_loop (checkActions n env) env n s socket event_bitmask) (\<lambda>s1.
     info_read_loop (checkActions n env) env n s1))"

subsection \<open>Reactor callbacks\<close>

text \<open>
  \<open>on_uv_timeout_callback\<close> calls \<open>checkActions()\<close>, which is
  \<open>checkActions(CURL_SOCKET_TIMEOUT, 0)\<close>. \<open>on_uv_curl_perform_callback\<close> computes
  \<open>action\<close> from \<open>status\<close> and \<open>events\<close> (\<open>select_action\<close>, the three \<open>if\<close>
  statements in order) and drives the engine on the context's socket.
\<close>

definition on_uv_timeout_callback ::
  "nat \<Rightarrow> ('e, 'h) collaborators \<Rightarrow> ('e, 'h) EventLoop \<Rightarrow> ('e, 'h) result" where
  "on_uv_timeout_callback n env s = checkActions n env s CURL_SOCKET_TIMEOUT 0"

definition select_action :: "int \<Rightarrow> int \<Rightarrow> int" where
  "select_action status events =
     (let action0 = 0;
          action1 = (if status < 0 then CURL_CSELECT_ERR else action0);
          action2 = (if status = 0 \<and> events AND UV_READABLE \<noteq> 0
                     then action1 OR CURL_CSELECT_IN else action1);
          action3 = (if status = 0 \<and> events AND UV_WRITABLE \<noteq> 0
                     then action2 OR CURL_CSELECT_OUT else action2)
      in action3)"

definition on_uv_curl_perform_callback ::
  "nat \<Rightarrow> ('e, 'h) collaborators \<Rightarrow> ('e, 'h) EventLoop \<Rightarrow> CurlContext \<Rightarrow> int \<Rightarrow> int
     \<Rightarrow> ('e, 'h) result" where
  "on_uv_curl_perform_callback n env s curl_context status events =
     checkActions n env s (m_sock_fd curl_context) (select_action status events)"

text \<open>
  \<open>requests_accept_async\<close>: under the \<open>lock_guard\<close>, the range-\<open>for\<close> over
  \<open>m_pending_requests\<close> releases each handle and adds its easy handle to the engine;
  then the count grows by \<open>size()\<close> and the vector is cleared. \<open>accept_loop\<close> is the
  \<open>for\<close> loop over the elements from the \<open>i\<close>-th on.
\<close>

fun accept_loop ::
  "('e, 'h) driver \<Rightarrow> ('e, 'h) collaborators \<Rightarrow> ('e, 'h) EventLoop \<Rightarrow> nat \<Rightarrow> 'h Request list
     \<Rightarrow> ('e, 'h) result" where
  "accept_loop chk env s i [] = Inr ([], s)"
| "accept_loop chk env s i (request # rest) =
     (case m_request_handle request of
        None \<Rightarrow> Inl (NullDereference [])
      | Some raw_request_handle_ptr \<Rightarrow>
          (case curl_multi_add_handle env (m_cmh s) (m_curl_handle env raw_request_handle_ptr) of
             (notes, e) \<Rightarrow>
               and_then
                 (inside (Curl_multi_add_handle (m_curl_handle env raw_request_handle_ptr))
                    (callbacks chk env
                       (s\<lparr>m_pending_requests :=
                            (m_pending_requests s)[i := \<lparr>m_request_handle = None\<rparr>],
                          m_cmh := e\<rparr>) notes)) (\<lambda>s1.
               accept_loop chk env s1 (Suc i) rest)))"

definition requests_accept_async ::
  "nat \<Rightarrow> ('e, 'h) collaborators \<Rightarrow> ('e, 'h) EventLoop \<Rightarrow> ('e, 'h) result" where
  "requests_accept_async n env s =
     (if m_pending_requests_lock s then Inl (Deadlock [Mutex_lock])
      else
        and_then (emit Mutex_lock (s\<lparr>m_pending_requests_lock := True\<rparr>)) (\<lambda>s1.
        and_then (accept_loop (checkActions n env) env s1 0 (m_pending_requests s1)) (\<lambda>s2.
        emit Mutex_unlock
          (s2\<lparr>m_active_request_count :=
                 m_active_request_count s2 + of_nat (length (m_pending_requests s2)),
               m_pending_requests := [],
               m_pending_requests_lock := False\<rparr>))))"

subsection \<open>Shutdown\<close>

text \<open>
  \<open>uv_close_callback\<close> runs on the worker thread and sets the flag of the handle that
  was closed. \<open>Stop\<close> runs on another thread and polls the two flags. The worker's
  side is given as a list: its \<open>k\<close>-th element names the handles whose close the worker
  acknowledged while the stopping thread slept for the \<open>k\<close>-th time; after the list
  the worker acknowledges nothing more. The join returns when \<open>run()\<close> has finished,
  and the last statement of \<open>run()\<close> is \<open>m_is_running = false\<close>.
\<close>

definition uv_close_callback :: "('e, 'h) EventLoop \<Rightarrow> uv_handle \<Rightarrow> ('e, 'h) EventLoop" where
  "uv_close_callback s handle =
     (if handle = Async then s\<lparr>m_async_closed := True\<rparr>
      else if handle = Timeout_timer then s\<lparr>m_timeout_timer_closed := True\<rparr>
      else s)"

fun spin_wait :: "('e, 'h) EventLoop \<Rightarrow> uv_handle list list \<Rightarrow> ('e, 'h) result" where
  "spin_wait s worker =
     (if \<not> m_timeout_timer_closed s \<and> \<not> m_async_closed s then
        (case worker of
           [] \<Rightarrow> Inl (Spins_forever [Sleep_for_1ms])
         | closed # later \<Rightarrow>
             and_then (emit Sleep_for_1ms (foldl uv_close_callback s closed)) (\<lambda>s1.
             spin_wait s1 later))
      else Inr ([], s))"

definition Stop :: "('e, 'h) EventLoop \<Rightarrow> uv_handle list list \<Rightarrow> ('e, 'h) result" where
  "Stop s worker =
     and_then (emit Uv_timer_stop s) (\<lambda>s1.
     and_then (emit (Uv_close Timeout_timer Uv_close_callback) s1) (\<lambda>s2.
     and_then (emit (Uv_close Async Uv_close_callback) s2) (\<lambda>s3.
     and_then (emit Uv_async_send s3) (\<lambda>s4.
     and_then (spin_wait s4 worker) (\<lambda>s5.
     and_then (emit Uv_stop s5) (\<lambda>s6.
     emit Thread_join (s6\<lparr>m_is_running := False\<rparr>)))))))"

subsection \<open>Reading a record of calls\<close>

text \<open>
  \<open>completions\<close> counts the invocations of the user's callback in a call, at any
  depth; \<open>completed\<close> sums it over a record of calls. \<open>is_socket_action\<close> tests for
  a call of the engine's driver, and \<open>drains\<close> for the calls that read and process the
  engine's messages.
\<close>

fun completions :: "'h call \<Rightarrow> nat" where
  "completions (IRequestCb_OnComplete r sub) = Suc (sum_list (map completions sub))"
| "completions (Curl_multi_socket_action fd ev code sub) = sum_list (map completions sub)"
| "completions (Curl_multi_remove_handle h sub) = sum_list (map completions sub)"
| "completions (Curl_multi_add_handle h sub) = sum_list (map completions sub)"
| "completions c = 0"

definition completed :: "'h call list \<Rightarrow> nat" where
  "completed t = sum_list (map completions t)"

fun is_socket_action :: "'h call \<Rightarrow> bool" where
  "is_socket_action (Curl_multi_socket_action fd ev code sub) = True"
| "is_socket_action c = False"

fun drains :: "'h call \<Rightarrow> bool" where
  "drains (Curl_multi_info_read m) = True"
| "drains (Curl_easy_getinfo_private h) = True"
| "drains (Curl_multi_remove_handle h sub) = True"
| "drains (Request_setRequestStatus h code) = True"
| "drains (IRequestCb_OnComplete r sub) = True"
| "drains c = False"

text \<open>
  The bookkeeping that every function of the loop keeps when it returns: the count has
  gone down by one for each completion recorded, the mutex is as it was found, and while
  the mutex is held the pending queue is not touched. A driver is \<open>accounting\<close> when
  all its runs keep it.
\<close>

definition accounts :: "('e, 'h) EventLoop \<Rightarrow> ('e, 'h) result \<Rightarrow> bool" where
  "accounts s r =
     (case r of
        Inl e \<Rightarrow> True
      | Inr (t, s') \<Rightarrow>
          m_active_request_count s' + of_nat (completed t) = m_active_request_count s
          \<and> m_pending_requests_lock s' = m_pending_requests_lock s
          \<and> (m_pending_requests_lock s \<longrightarrow> m_pending_requests s' = m_pending_requests s))"

definition accounting :: "('e, 'h) driver \<Rightarrow> bool" where
  "accounting chk = (\<forall>s socket ev. accounts s (chk s socket ev))"

text \<open>
  The counter \<open>n\<close> only bounds the run: a result other than \<open>OutOfFuel\<close> is
  \<open>settled\<close>, and one driver carries over to another when the second repeats every
  settled result of the first.
\<close>

definition settled :: "('e, 'h) result \<Rightarrow> bool" where
  "settled r = (r \<noteq> Inl OutOfFuel)"

definition carries_over :: "('e, 'h) driver \<Rightarrow> ('e, 'h) driver \<Rightarrow> bool" where
  "carries_over chk chk' = (\<forall>s socket ev. settled (chk s socket ev) \<longrightarrow> chk' s socket ev = chk s socket ev)"


text \<open>
  The mapping of the poll callback as a reading of its description that sets each of the
  three bits on its own: \<open>ERR\<close> for an error status, \<open>IN\<close> for readable, \<open>OUT\<close> for
  writable, in any combination. It is compared with \<open>select_action\<close> below.
\<close>

definition claimed_action :: "int \<Rightarrow> int \<Rightarrow> int" where
  "claimed_action status events =
     (if status < 0 then CURL_CSELECT_ERR else 0)
     OR (if events AND UV_READABLE \<noteq> 0 then CURL_CSELECT_IN else 0)
     OR (if events AND UV_WRITABLE \<noteq> 0 then CURL_CSELECT_OUT else 0)"

text \<open>
  The handling of the engine's messages as a reading of its description, message by
  message: the loop reads until there is no message; a message of a kind other than
  \<open>DONE\<close> is only read; for a \<open>DONE\<close> message the loop, in this order, recovers the
  request handle from the private slot of the easy handle, removes the easy handle from
  the engine, builds a request around the handle with its status set to the result code
  of the message, calls the user's callback once with that request, and only then takes
  one off the count, so that the callback still reads the count that includes its own
  request. \<open>claimed_dispatch chk env s t s'\<close> holds when \<open>t\<close> is such a sequence of
  calls from the state \<open>s\<close>, ending in \<open>s'\<close>. It is compared with
  \<open>checkActions\<close> below.
\<close>

inductive claimed_dispatch ::
  "('e, 'h) driver \<Rightarrow> ('e, 'h) collaborators \<Rightarrow> ('e, 'h) EventLoop \<Rightarrow> 'h call list
     \<Rightarrow> ('e, 'h) EventLoop \<Rightarrow> bool"
  for chk env where
  no_message:
    "curl_multi_info_read env (m_cmh s) = (None, e)
     \<Longrightarrow> claimed_dispatch chk env s [Curl_multi_info_read None] (s\<lparr>m_cmh := e\<rparr>)"
| other_message:
    "curl_multi_info_read env (m_cmh s) = (Some message, e)
     \<Longrightarrow> msg message \<noteq> CURLMSG_DONE
     \<Longrightarrow> claimed_dispatch chk env (s\<lparr>m_cmh := e\<rparr>) t s'
     \<Longrightarrow> claimed_dispatch chk env s (Curl_multi_info_read (Some message) # t) s'"
| DONE_message:
    "curl_multi_info_read env (m_cmh s) = (Some message, e)
     \<Longrightarrow> msg message = CURLMSG_DONE
     \<Longrightarrow> raw = curlinfo_private env e (easy_handle message)
     \<Longrightarrow> curl_multi_remove_handle env e (easy_handle message) = (ns, e2)
     \<Longrightarrow> callbacks chk env (s\<lparr>m_cmh := e2\<rparr>) ns = Inr (sub1, s2)
     \<Longrightarrow> request = \<lparr>m_request_handle = Some (setRequestStatus env raw (data_result message))\<rparr>
     \<Longrightarrow> submit_all env s2 (OnComplete env request (m_active_request_count s2)) = Inr (sub2, s4)
     \<Longrightarrow> claimed_dispatch chk env (s4\<lparr>m_active_request_count := m_active_request_count s4 - 1\<rparr>) t s'
     \<Longrightarrow> claimed_dispatch chk env s
           (Curl_multi_info_read (Some message)
            # Curl_easy_getinfo_private (easy_handle message)
            # Curl_multi_remove_handle (easy_handle message) sub1
            # Request_setRequestStatus raw (data_result message)
            # IRequestCb_OnComplete request sub2
            # t) s'"

text \<open>
  A user callback \<open>submits_prepared\<close> when every request it submits holds a handle
  whose preparation does not throw.
\<close>

definition submits_prepared :: "('e, 'h) collaborators \<Rightarrow> bool" where
  "submits_prepared env =
     (\<forall>request count. \<forall>r \<in> set (OnComplete env request count).
        \<exists>h h'. m_request_handle r = Some h \<and> prepareForPerform env h = Some h')"

subsection \<open>A scripted engine\<close>

text \<open>
  A stand-in for the engine, for running the model on concrete inputs: every engine
  function answers from a script and moves on by one entry; an exhausted script answers
  with no notification, \<open>CURLM_OK\<close> and no message. A request handle is its easy
  handle and its status; preparing the handle with easy handle 0 throws.

  The concrete inputs used below: \<open>stub_loop e q c\<close> is a running loop with engine
  \<open>e\<close>, pending queue \<open>q\<close> and count \<open>c\<close>; \<open>done_7\<close> reports transfer 7 done
  with result 28; \<open>busy_engine\<close> asks to be driven twice, arms a 5 ms timer and then
  reports \<open>done_7\<close>; \<open>eager_engine\<close> asks for a zero timeout from inside
  \<open>curl_multi_add_handle\<close> and then reports \<open>done_7\<close>; \<open>finished_engine\<close> only
  reports \<open>done_7\<close>. The user callback of \<open>quiet\<close> submits nothing, that of
  \<open>resubmitting\<close> submits the request with easy handle 9, and that of
  \<open>counting\<close> submits it only when it reads a count of 1.
\<close>

record stub_handle =
  stub_curl :: nat
  stub_status :: "nat option"

record stub_engine =
  socket_action_script :: "(notification list \<times> int) list"
  info_read_script :: "CURLMsg list"
  add_handle_script :: "notification list list"
  remove_handle_script :: "notification list list"

definition stub ::
  "(stub_handle Request \<Rightarrow> 64 word \<Rightarrow> stub_handle Request list)
     \<Rightarrow> (stub_engine, stub_handle) collaborators"
  where
  "stub cb =
     \<lparr>curl_multi_socket_action = (\<lambda>e socket ev.
        case socket_action_script e of
          [] \<Rightarrow> ([], CURLM_OK, e)
        | (notes, code) # later \<Rightarrow> (notes, code, e\<lparr>socket_action_script := later\<rparr>)),
      curl_multi_info_read = (\<lambda>e.
        case info_read_script e of
          [] \<Rightarrow> (None, e)
        | m # later \<Rightarrow> (Some m, e\<lparr>info_read_script := later\<rparr>)),
      curl_multi_add_handle = (\<lambda>e h.
        case add_handle_script e of
          [] \<Rightarrow> ([], e)
        | notes # later \<Rightarrow> (notes, e\<lparr>add_handle_script := later\<rparr>)),
      curl_multi_remove_handle = (\<lambda>e h.
        case remove_handle_script e of
          [] \<Rightarrow> ([], e)
        | notes # later \<Rightarrow> (notes, e\<lparr>remove_handle_script := later\<rparr>)),
      curl_multi_assign = (\<lambda>e socket c. e),
      curlinfo_private = (\<lambda>e h. \<lparr>stub_curl = h, stub_status = None\<rparr>),
      m_curl_handle = stub_curl,
      prepareForPerform = (\<lambda>h. if stub_curl h = 0 then None else Some h),
      setRequestStatus = (\<lambda>h code. h\<lparr>stub_status := Some code\<rparr>),
      OnComplete = cb\<rparr>"

definition idle_engine :: stub_engine where
  "idle_engine = \<lparr>socket_action_script = [], info_read_script = [],
                   add_handle_script = [], remove_handle_script = []\<rparr>"

definition stub_loop ::
  "stub_engine \<Rightarrow> stub_handle Request list \<Rightarrow> 64 word \<Rightarrow> (stub_engine, stub_handle) EventLoop"
  where
  "stub_loop e q c =
     \<lparr>m_is_running = True, m_active_request_count = c, m_pending_requests_lock = False,
      m_pending_requests = q, m_cmh = e, m_async_closed = False,
      m_timeout_timer_closed = False, next_poll_handle = 0\<rparr>"

definition request_of :: "nat \<Rightarrow> stub_handle Request" where
  "request_of h = \<lparr>m_request_handle = Some \<lparr>stub_curl = h, stub_status = None\<rparr>\<rparr>"

definition done_7 :: CURLMsg where
  "done_7 = \<lparr>msg = CURLMSG_DONE, easy_handle = 7, data_result = 28\<rparr>"

definition busy_engine :: stub_engine where
  "busy_engine =
     \<lparr>socket_action_script = [([], CURLM_CALL_MULTI_PERFORM), ([TimerFunction 5], CURLM_OK)],
      info_read_script = [done_7], add_handle_script = [], remove_handle_script = []\<rparr>"

definition eager_engine :: stub_engine where
  "eager_engine =
     \<lparr>socket_action_script = [], info_read_script = [done_7],
      add_handle_script = [[TimerFunction 0]], remove_handle_script = []\<rparr>"

definition finished_engine :: stub_engine where
  "finished_engine =
     \<lparr>socket_action_script = [], info_read_script = [done_7],
      add_handle_script = [], remove_handle_script = []\<rparr>"

definition quiet :: "(stub_engine, stub_handle) collaborators" where
  "quiet = stub (\<lambda>r c. [])"

definition resubmitting :: "(stub_engine, stub_handle) collaborators" where
  "resubmitting = stub (\<lambda>r c. [request_of 9])"

definition counting :: "(stub_engine, stub_handle) collaborators" where
  "counting = stub (\<lambda>r c. if c = 1 then [request_of 9] else [])"

section \<open>Properties of the header lookup\<close>

lemma header_loop_None: "header_loop hs n = None \<longleftrightarrow> (\<forall>h \<in> set hs. name h \<noteq> n)"
  by (induction hs) auto

lemma header_loop_Some:
  "header_loop hs n = Some h \<longleftrightarrow>
     (\<exists>i < length hs. hs ! i = h \<and> name h = n \<and> (\<forall>j < i. name (hs ! j) \<noteq> n))"
proof (induction hs)
  case Nil
  then show ?case by simp
next
  case (Cons a hs)
  show ?case
  proof (cases "name a = n")
    case True
    have "(\<exists>i < length (a # hs). (a # hs) ! i = h \<and> name h = n \<and>
             (\<forall>j < i. name ((a # hs) ! j) \<noteq> n)) \<longleftrightarrow> a = h"
    proof
      assume "\<exists>i < length (a # hs). (a # hs) ! i = h \<and> name h = n \<and>
                (\<forall>j < i. name ((a # hs) ! j) \<noteq> n)"
      then obtain i where i: "(a # hs) ! i = h" "\<forall>j < i. name ((a # hs) ! j) \<noteq> n"
        by blast
      have "i = 0"
      proof (rule ccontr)
        assume "i \<noteq> 0"
        then have "0 < i" by simp
        with i(2) have "name ((a # hs) ! 0) \<noteq> n" by blast
        with True show False by simp
      qed
      with i(1) show "a = h" by simp
    next
      assume "a = h"
      with True show "\<exists>i < length (a # hs). (a # hs) ! i = h \<and> name h = n \<and>
                (\<forall>j < i. name ((a # hs) ! j) \<noteq> n)"
        by (intro exI [of _ 0]) simp
    qed
    with True show ?thesis by simp
  next
    case False
    have "(\<exists>i < length (a # hs). (a # hs) ! i = h \<and> name h = n \<and>
             (\<forall>j < i. name ((a # hs) ! j) \<noteq> n)) \<longleftrightarrow>
          (\<exists>i < length hs. hs ! i = h \<and> name h = n \<and> (\<forall>j < i. name (hs ! j) \<noteq> n))"
    proof
      assume "\<exists>i < length (a # hs). (a # hs) ! i = h \<and> name h = n \<and>
                (\<forall>j < i. name ((a # hs) ! j) \<noteq> n)"
      then obtain i where i: "i < length (a # hs)" "(a # hs) ! i = h" "name h = n"
        "\<forall>j < i. name ((a # hs) ! j) \<noteq> n"
        by blast
      from i(2,3) False have "i \<noteq> 0" by (cases i) auto
      then obtain k where k: "i = Suc k" by (cases i) auto
      have "\<forall>j < k. name (hs ! j) \<noteq> n"
      proof (intro allI impI)
        fix j assume "j < k"
        then have "Suc j < i" using k by simp
        with i(4) have "name ((a # hs) ! Suc j) \<noteq> n" by blast
        then show "name (hs ! j) \<noteq> n" by simp
      qed
      with i k show "\<exists>i < length hs. hs ! i = h \<and> name h = n \<and> (\<forall>j < i. name (hs ! j) \<noteq> n)"
        by (intro exI [of _ k]) simp
    next
      assume "\<exists>i < length hs. hs ! i = h \<and> name h = n \<and> (\<forall>j < i. name (hs ! j) \<noteq> n)"
      then obtain k where k: "k < length hs" "hs ! k = h" "name h = n"
        "\<forall>j < k. name (hs ! j) \<noteq> n"
        by blast
      have "\<forall>j < Suc k. name ((a # hs) ! j) \<noteq> n"
      proof (intro allI impI)
        fix j assume j: "j < Suc k"
        show "name ((a # hs) ! j) \<noteq> n"
        proof (cases j)
          case 0
          with False show ?thesis by simp
        next
          case (Suc m)
          with j k(4) show ?thesis by simp
        qed
      qed
      with k show "\<exists>i < length (a # hs). (a # hs) ! i = h \<and> name h = n \<and>
                (\<forall>j < i. name ((a # hs) ! j) \<noteq> n)"
        by (intro exI [of _ "Suc k"]) simp
    qed
    with False Cons.IH show ?thesis by simp
  qed
qed

text \<open>
  C10. For every response and every header name, \<open>response::header(name)\<close> returns the
  first stored header whose name equals the given name, in storage order (with duplicate
  names the earliest wins), and returns \<open>nullopt\<close> exactly when no stored header has
  that name. The lookup is a pure function of the response: the response is unchanged.
\<close>

theorem response_header_first_match:
  "(response_header r n = Some h \<longleftrightarrow>
      (\<exists>i < length (m_headers r). m_headers r ! i = h \<and> name h = n \<and>
         (\<forall>j < i. name (m_headers r ! j) \<noteq> n)))
   \<and> (response_header r n = None \<longleftrightarrow> (\<forall>h \<in> set (m_headers r). name h \<noteq> n))"
  unfolding response_header_def
  using header_loop_Some [of "m_headers r" n h] header_loop_None [of "m_headers r" n]
  by blast

theorem response_header_first_match_witness:
  "response_header
     \<lparr>m_headers = [\<lparr>name = ''Host'', val = ''a''\<rparr>, \<lparr>name = ''Accept'', val = ''b''\<rparr>,
                   \<lparr>name = ''Accept'', val = ''c''\<rparr>], m_data = ''''\<rparr> ''Accept''
     = Some \<lparr>name = ''Accept'', val = ''b''\<rparr>
   \<and> response_header
     \<lparr>m_headers = [\<lparr>name = ''Host'', val = ''a''\<rparr>, \<lparr>name = ''Accept'', val = ''b''\<rparr>,
                   \<lparr>name = ''Accept'', val = ''c''\<rparr>], m_data = ''''\<rparr> ''Cookie''
     = None"
proof -
  let ?r = "\<lparr>m_headers = [\<lparr>name = ''Host'', val = ''a''\<rparr>, \<lparr>name = ''Accept'', val = ''b''\<rparr>,
                   \<lparr>name = ''Accept'', val = ''c''\<rparr>], m_data = ''''\<rparr>"
  have none: "\<forall>h \<in> set (m_headers ?r). name h \<noteq> ''Cookie''" by simp
  have some: "\<exists>i < length (m_headers ?r). m_headers ?r ! i = \<lparr>name = ''Accept'', val = ''b''\<rparr>
      \<and> name \<lparr>name = ''Accept'', val = ''b''\<rparr> = ''Accept''
      \<and> (\<forall>j < i. name (m_headers ?r ! j) \<noteq> ''Accept'')"
    by (intro exI [of _ 1]) simp
  from response_header_first_match [of ?r "''Accept''" "\<lparr>name = ''Accept'', val = ''b''\<rparr>"]
    some
  have a: "response_header ?r ''Accept'' = Some \<lparr>name = ''Accept'', val = ''b''\<rparr>"
    by blast
  from response_header_first_match [of ?r "''Cookie''" "\<lparr>name = ''Accept'', val = ''b''\<rparr>"]
    none
  have b: "response_header ?r ''Cookie'' = None"
    by blast
  from a b show ?thesis by simp
qed

section \<open>Properties of the event loop\<close>

subsection \<open>Sequencing\<close>

lemma and_then_Inr [simp]:
  "and_then (Inr (t, s)) f = (case f s of Inl e \<Rightarrow> Inl (after t e) | Inr (u, s') \<Rightarrow> Inr (t @ u, s'))"
  by (simp add: and_then_def)

lemma and_then_Inl [simp]: "and_then (Inl e) f = Inl e"
  by (simp add: and_then_def)

lemma and_then_emit [simp]:
  "and_then (emit c s) f = (case f s of Inl e \<Rightarrow> Inl (after [c] e) | Inr (u, s') \<Rightarrow> Inr (c # u, s'))"
  by (simp add: emit_def split: sum.splits prod.splits)

lemma and_then_returns:
  "and_then r f = Inr (t, s') \<longleftrightarrow>
     (\<exists>t1 s1 t2. r = Inr (t1, s1) \<and> f s1 = Inr (t2, s') \<and> t = t1 @ t2)"
  by (auto simp: and_then_def split: sum.splits prod.splits)

lemma inside_returns:
  "inside c r = Inr (t, s') \<longleftrightarrow> (\<exists>sub. r = Inr (sub, s') \<and> t = [c sub])"
  by (auto simp: inside_def split: sum.splits prod.splits)

lemmas consts_defs = CURL_SOCKET_TIMEOUT_def CURLM_CALL_MULTI_PERFORM_def CURLM_OK_def
  CURL_POLL_IN_def CURL_POLL_OUT_def CURL_POLL_REMOVE_def CURL_CSELECT_IN_def
  CURL_CSELECT_OUT_def CURL_CSELECT_ERR_def UV_READABLE_def UV_WRITABLE_def CURLMSG_DONE_def


subsection \<open>The timer callback\<close>

text \<open>
  C3. For every timer notification from the engine with timeout \<open>T\<close>, the handler first
  stops the timer, whatever \<open>T\<close> is. If \<open>T > 0\<close> it then arms the timer for \<open>T\<close> ms
  with repeat 0 (single shot) and \<open>on_uv_timeout_callback\<close> as the expiry, which is
  \<open>checkActions(TIMEOUT, 0)\<close>; if \<open>T = 0\<close> it runs \<open>checkActions(TIMEOUT, 0)\<close> in
  place, after the stop; if \<open>T < 0\<close> it does nothing more, so the timer stays stopped.
\<close>

theorem curl_start_timeout_cases:
  "(0 < timeout_ms \<longrightarrow>
      curl_start_timeout (checkActions n env) s timeout_ms =
        Inr ([Uv_timer_stop, Uv_timer_start On_uv_timeout_callback timeout_ms 0], s))
   \<and> (timeout_ms = 0 \<longrightarrow>
      curl_start_timeout (checkActions n env) s timeout_ms =
        and_then (emit Uv_timer_stop s) (\<lambda>s1. checkActions n env s1 CURL_SOCKET_TIMEOUT 0))
   \<and> (timeout_ms < 0 \<longrightarrow>
      curl_start_timeout (checkActions n env) s timeout_ms = Inr ([Uv_timer_stop], s))
   \<and> on_uv_timeout_callback n env s = checkActions n env s CURL_SOCKET_TIMEOUT 0"
  by (simp add: curl_start_timeout_def on_uv_timeout_callback_def emit_def)


theorem curl_start_timeout_cases_witness:
  "curl_start_timeout (checkActions 2 quiet) (stub_loop idle_engine [] 0) 5 =
     Inr ([Uv_timer_stop, Uv_timer_start On_uv_timeout_callback 5 0], stub_loop idle_engine [] 0)
   \<and> curl_start_timeout (checkActions 2 quiet) (stub_loop idle_engine [] 0) 0 =
     Inr ([Uv_timer_stop, Curl_multi_socket_action CURL_SOCKET_TIMEOUT 0 CURLM_OK [],
           Curl_multi_info_read None], stub_loop idle_engine [] 0)
   \<and> curl_start_timeout (checkActions 2 quiet) (stub_loop idle_engine [] 0) (- 1) =
     Inr ([Uv_timer_stop], stub_loop idle_engine [] 0)"
proof -
  have inline: "and_then (emit Uv_timer_stop (stub_loop idle_engine [] 0))
        (\<lambda>s1. checkActions 2 quiet s1 CURL_SOCKET_TIMEOUT 0) =
      Inr ([Uv_timer_stop, Curl_multi_socket_action CURL_SOCKET_TIMEOUT 0 CURLM_OK [],
           Curl_multi_info_read None], stub_loop idle_engine [] 0)"
    by code_simp
  from curl_start_timeout_cases [where timeout_ms = 5 and n = 2 and env = quiet
      and s = "stub_loop idle_engine [] 0"]
  have a: "curl_start_timeout (checkActions 2 quiet) (stub_loop idle_engine [] 0) 5 =
     Inr ([Uv_timer_stop, Uv_timer_start On_uv_timeout_callback 5 0], stub_loop idle_engine [] 0)"
    by simp
  from curl_start_timeout_cases [where timeout_ms = 0 and n = 2 and env = quiet
      and s = "stub_loop idle_engine [] 0"] inline
  have b: "curl_start_timeout (checkActions 2 quiet) (stub_loop idle_engine [] 0) 0 =
     Inr ([Uv_timer_stop, Curl_multi_socket_action CURL_SOCKET_TIMEOUT 0 CURLM_OK [],
           Curl_multi_info_read None], stub_loop idle_engine [] 0)"
    by simp
  from curl_start_timeout_cases [where timeout_ms = "- 1" and n = 2 and env = quiet
      and s = "stub_loop idle_engine [] 0"]
  have c: "curl_start_timeout (checkActions 2 quiet) (stub_loop idle_engine [] 0) (- 1) =
     Inr ([Uv_timer_stop], stub_loop idle_engine [] 0)"
    by simp
  from a b c show ?thesis by simp
qed

subsection \<open>The socket callback\<close>

text \<open>
  C6. For every socket notification from the engine: on \<open>CURL_POLL_IN\<close> or
  \<open>CURL_POLL_OUT\<close> the context is the one in the engine's per-socket pointer, or, when
  that is null, a new context, which is stored in the slot with \<open>curl_multi_assign\<close>;
  then polling for readable (respectively writable) is started on its handle. On
  \<open>CURL_POLL_REMOVE\<close>, a context that is present is closed and the slot is cleared; an
  absent one leaves nothing to do. Every other action, \<open>CURL_POLL_INOUT\<close> (3) among
  them, makes no call and changes nothing.
\<close>

theorem curl_handle_socket_actions_cases:
  "(action = CURL_POLL_IN \<or> action = CURL_POLL_OUT \<longrightarrow>
      (\<forall>c. socketp = Some c \<longrightarrow>
         curl_handle_socket_actions env s socket action socketp =
           Inr ([Uv_poll_start (m_poll_handle c)
                   (if action = CURL_POLL_IN then UV_READABLE else UV_WRITABLE)
                   On_uv_curl_perform_callback], s))
      \<and> (socketp = None \<longrightarrow>
         curl_handle_socket_actions env s socket action socketp =
           Inr ([Uv_poll_init_socket (next_poll_handle s) socket,
                 Curl_multi_assign socket
                   (Some \<lparr>m_sock_fd = socket, m_poll_handle = next_poll_handle s\<rparr>),
                 Uv_poll_start (next_poll_handle s)
                   (if action = CURL_POLL_IN then UV_READABLE else UV_WRITABLE)
                   On_uv_curl_perform_callback],
                s\<lparr>next_poll_handle := Suc (next_poll_handle s),
                  m_cmh := curl_multi_assign env (m_cmh s) socket
                    (Some \<lparr>m_sock_fd = socket, m_poll_handle = next_poll_handle s\<rparr>)\<rparr>)))
   \<and> (action = CURL_POLL_REMOVE \<longrightarrow>
      (\<forall>c. socketp = Some c \<longrightarrow>
         curl_handle_socket_actions env s socket action socketp =
           Inr ([Uv_poll_stop (m_poll_handle c),
                 Uv_close (Poll (m_poll_handle c)) CurlContext_on_close,
                 Curl_multi_assign socket None],
                s\<lparr>m_cmh := curl_multi_assign env (m_cmh s) socket None\<rparr>))
      \<and> (socketp = None \<longrightarrow>
         curl_handle_socket_actions env s socket action socketp = Inr ([], s)))
   \<and> (action \<noteq> CURL_POLL_IN \<and> action \<noteq> CURL_POLL_OUT \<and> action \<noteq> CURL_POLL_REMOVE \<longrightarrow>
      curl_handle_socket_actions env s socket action socketp = Inr ([], s))"
  by (auto simp: curl_handle_socket_actions_def CurlContext_new_def CurlContext_Close_def
      consts_defs Let_def)


theorem curl_handle_socket_actions_cases_witness:
  "curl_handle_socket_actions quiet (stub_loop idle_engine [] 0) 3 CURL_POLL_IN None =
     Inr ([Uv_poll_init_socket 0 3,
           Curl_multi_assign 3 (Some \<lparr>m_sock_fd = 3, m_poll_handle = 0\<rparr>),
           Uv_poll_start 0 UV_READABLE On_uv_curl_perform_callback],
          (stub_loop idle_engine [] 0)\<lparr>next_poll_handle := 1\<rparr>)
   \<and> curl_handle_socket_actions quiet (stub_loop idle_engine [] 0) 3 CURL_POLL_OUT
       (Some \<lparr>m_sock_fd = 3, m_poll_handle = 0\<rparr>) =
     Inr ([Uv_poll_start 0 UV_WRITABLE On_uv_curl_perform_callback], stub_loop idle_engine [] 0)
   \<and> curl_handle_socket_actions quiet (stub_loop idle_engine [] 0) 3 CURL_POLL_REMOVE
       (Some \<lparr>m_sock_fd = 3, m_poll_handle = 0\<rparr>) =
     Inr ([Uv_poll_stop 0, Uv_close (Poll 0) CurlContext_on_close, Curl_multi_assign 3 None],
          stub_loop idle_engine [] 0)
   \<and> curl_handle_socket_actions quiet (stub_loop idle_engine [] 0) 3 CURL_POLL_REMOVE None =
     Inr ([], stub_loop idle_engine [] 0)
   \<and> curl_handle_socket_actions quiet (stub_loop idle_engine [] 0) 3 3 None =
     Inr ([], stub_loop idle_engine [] 0)"
proof -
  have k: "CURL_POLL_IN \<noteq> CURL_POLL_OUT" "CURL_POLL_IN \<noteq> CURL_POLL_REMOVE"
    "CURL_POLL_OUT \<noteq> CURL_POLL_REMOVE" "3 \<noteq> CURL_POLL_IN" "3 \<noteq> CURL_POLL_OUT"
    "3 \<noteq> CURL_POLL_REMOVE"
    by (simp_all add: consts_defs)
  have e: "curl_multi_assign quiet e socket c = e" for e socket c
    by (simp add: quiet_def stub_def)
  have f: "next_poll_handle (stub_loop idle_engine [] 0) = 0"
    "m_cmh (stub_loop idle_engine [] 0) = idle_engine"
    by (simp_all add: stub_loop_def)
  have g: "(stub_loop idle_engine [] 0)\<lparr>next_poll_handle := Suc 0, m_cmh := idle_engine\<rparr>
     = (stub_loop idle_engine [] 0)\<lparr>next_poll_handle := 1\<rparr>"
     "(stub_loop idle_engine [] 0)\<lparr>m_cmh := idle_engine\<rparr> = stub_loop idle_engine [] 0"
    by (simp_all add: stub_loop_def)
  from curl_handle_socket_actions_cases [where action = CURL_POLL_IN
      and socketp = None and env = quiet and s = "stub_loop idle_engine [] 0" and socket = 3]
  have a: "curl_handle_socket_actions quiet (stub_loop idle_engine [] 0) 3 CURL_POLL_IN None =
     Inr ([Uv_poll_init_socket 0 3,
           Curl_multi_assign 3 (Some \<lparr>m_sock_fd = 3, m_poll_handle = 0\<rparr>),
           Uv_poll_start 0 UV_READABLE On_uv_curl_perform_callback],
          (stub_loop idle_engine [] 0)\<lparr>next_poll_handle := 1\<rparr>)"
    by (simp add: e f g)
  from curl_handle_socket_actions_cases [where action = CURL_POLL_OUT
      and socketp = "Some \<lparr>m_sock_fd = 3, m_poll_handle = 0\<rparr>" and env = quiet
      and s = "stub_loop idle_engine [] 0" and socket = 3]
  have b: "curl_handle_socket_actions quiet (stub_loop idle_engine [] 0) 3 CURL_POLL_OUT
       (Some \<lparr>m_sock_fd = 3, m_poll_handle = 0\<rparr>) =
     Inr ([Uv_poll_start 0 UV_WRITABLE On_uv_curl_perform_callback], stub_loop idle_engine [] 0)"
    using k by simp
  from curl_handle_socket_actions_cases [where action = CURL_POLL_REMOVE
      and socketp = "Some \<lparr>m_sock_fd = 3, m_poll_handle = 0\<rparr>" and env = quiet
      and s = "stub_loop idle_engine [] 0" and socket = 3]
  have c: "curl_handle_socket_actions quiet (stub_loop idle_engine [] 0) 3 CURL_POLL_REMOVE
       (Some \<lparr>m_sock_fd = 3, m_poll_handle = 0\<rparr>) =
     Inr ([Uv_poll_stop 0, Uv_close (Poll 0) CurlContext_on_close, Curl_multi_assign 3 None],
          stub_loop idle_engine [] 0)"
    by (simp add: e f g)
  from curl_handle_socket_actions_cases [where action = CURL_POLL_REMOVE
      and socketp = None and env = quiet and s = "stub_loop idle_engine [] 0" and socket = 3]
  have d: "curl_handle_socket_actions quiet (stub_loop idle_engine [] 0) 3 CURL_POLL_REMOVE None =
     Inr ([], stub_loop idle_engine [] 0)"
    by simp
  from curl_handle_socket_actions_cases [where action = 3
      and socketp = None and env = quiet and s = "stub_loop idle_engine [] 0" and socket = 3] k
  have h: "curl_handle_socket_actions quiet (stub_loop idle_engine [] 0) 3 3 None =
     Inr ([], stub_loop idle_engine [] 0)"
    by simp
  from a b c d h show ?thesis by simp
qed

subsection \<open>The poll callback\<close>

text \<open>
  C7, as stated, sets the three bits of the mask independently: an error status gives
  \<open>ERR\<close>, readable gives \<open>IN\<close>, writable gives \<open>OUT\<close>, in any combination. The
  source tests the events only under \<open>!status\<close>: with status \<open>-1\<close> and a readable
  event the mask is \<open>ERR\<close> alone, not \<open>ERR | IN\<close>.
\<close>

theorem select_action_counterexample:
  "select_action (- 1) UV_READABLE = CURL_CSELECT_ERR
   \<and> claimed_action (- 1) UV_READABLE = CURL_CSELECT_ERR OR CURL_CSELECT_IN
   \<and> select_action (- 1) UV_READABLE \<noteq> claimed_action (- 1) UV_READABLE"
  by (simp add: select_action_def claimed_action_def consts_defs)


text \<open>
  C7, amended. The poll callback calls \<open>checkActions\<close> with the context's socket and a
  mask computed from \<open>status\<close> and \<open>events\<close>: when the status is 0, readable maps to
  \<open>IN\<close> and writable to \<open>OUT\<close>, the two combined when both are set; when the status
  is negative the mask is \<open>ERR\<close> alone, whatever the events; when it is positive the
  mask is 0.
\<close>

theorem on_uv_curl_perform_callback_action:
  "on_uv_curl_perform_callback n env s curl_context status events =
     checkActions n env s (m_sock_fd curl_context) (select_action status events)
   \<and> (status = 0 \<longrightarrow>
        select_action status events =
          (if events AND UV_READABLE \<noteq> 0 then CURL_CSELECT_IN else 0)
          OR (if events AND UV_WRITABLE \<noteq> 0 then CURL_CSELECT_OUT else 0))
   \<and> (status < 0 \<longrightarrow> select_action status events = CURL_CSELECT_ERR)
   \<and> (0 < status \<longrightarrow> select_action status events = 0)"
  by (simp add: on_uv_curl_perform_callback_def select_action_def Let_def)


theorem on_uv_curl_perform_callback_action_witness:
  "select_action 0 3 = 3 \<and> select_action 0 2 = CURL_CSELECT_OUT
   \<and> select_action (- 9) 3 = CURL_CSELECT_ERR \<and> select_action 1 3 = 0
   \<and> on_uv_curl_perform_callback 2 quiet (stub_loop idle_engine [] 0)
        \<lparr>m_sock_fd = 11, m_poll_handle = 0\<rparr> 0 3 =
      checkActions 2 quiet (stub_loop idle_engine [] 0) 11 3"
proof -
  note t = on_uv_curl_perform_callback_action [where n = 2 and env = quiet
      and s = "stub_loop idle_engine [] 0"
      and curl_context = "\<lparr>m_sock_fd = 11, m_poll_handle = 0\<rparr>"]
  from t [where status = 0 and events = 3]
  have a: "select_action 0 3 = 3"
    and e: "on_uv_curl_perform_callback 2 quiet (stub_loop idle_engine [] 0)
        \<lparr>m_sock_fd = 11, m_poll_handle = 0\<rparr> 0 3 =
      checkActions 2 quiet (stub_loop idle_engine [] 0) 11 (select_action 0 3)"
    by (simp_all add: consts_defs)
  from t [where status = 0 and events = 2]
  have b: "select_action 0 2 = CURL_CSELECT_OUT"
    by (simp add: consts_defs)
  from t [where status = "- 9" and events = 3]
  have c: "select_action (- 9) 3 = CURL_CSELECT_ERR"
    by simp
  from t [where status = 1 and events = 3]
  have d: "select_action 1 3 = 0"
    by simp
  from a b c d e show ?thesis by simp
qed

subsection \<open>Submission\<close>

text \<open>
  C9. If \<open>prepareForPerform\<close> fails during \<open>AddRequest\<close>, the failure leaves
  \<open>AddRequest\<close> at once: the only call made is the preparation itself (no lock, no
  \<open>uv_async_send\<close>), and the loop's state, the pending queue included, is the one the
  caller passed in.
\<close>

theorem AddRequest_prepare_throws:
  "prepareForPerform env h = None \<Longrightarrow>
     AddRequest env s \<lparr>m_request_handle = Some h\<rparr> = Inl (Threw [Request_prepareForPerform h] s)"
  by (simp add: AddRequest_def)

theorem AddRequest_prepare_throws_witness:
  "prepareForPerform quiet \<lparr>stub_curl = 0, stub_status = None\<rparr> = None
   \<and> AddRequest quiet (stub_loop idle_engine [request_of 4] 1) (request_of 0) =
       Inl (Threw [Request_prepareForPerform \<lparr>stub_curl = 0, stub_status = None\<rparr>]
              (stub_loop idle_engine [request_of 4] 1))"
proof -
  have p: "prepareForPerform quiet \<lparr>stub_curl = 0, stub_status = None\<rparr> = None"
    by (simp add: quiet_def stub_def)
  from AddRequest_prepare_throws [OF p, of "stub_loop idle_engine [request_of 4] 1"] p
  show ?thesis by (simp add: request_of_def)
qed


lemma AddRequest_locked:
  assumes "m_pending_requests_lock s" and "m_request_handle request = Some h"
    and "prepareForPerform env h = Some h'"
  shows "AddRequest env s request = Inl (Deadlock [Request_prepareForPerform h, Mutex_lock])"
  using assms by (simp add: AddRequest_def emit_def)


subsection \<open>Shutdown\<close>

text \<open>
  C1 says that \<open>Stop\<close> waits until both the wakeup and the timer are marked closed
  before it asks the loop to exit and joins the worker. The loop of the source is
  \<open>while (!m_timeout_timer_closed && !m_async_closed)\<close>: it ends as soon as one of the
  flags is set. When the worker has acknowledged only the close of the wakeup handle
  during the first sleep, \<open>Stop\<close> goes on to \<open>uv_stop\<close> and the join, and
  \<open>m_timeout_timer_closed\<close> is still false when it returns.
\<close>

theorem Stop_returns_with_timer_open:
  "Stop (stub_loop idle_engine [] 0) [[Async]] =
     Inr ([Uv_timer_stop, Uv_close Timeout_timer Uv_close_callback,
           Uv_close Async Uv_close_callback, Uv_async_send, Sleep_for_1ms, Uv_stop,
           Thread_join],
          (stub_loop idle_engine [] 0)\<lparr>m_async_closed := True, m_is_running := False\<rparr>)
   \<and> \<not> m_timeout_timer_closed
         ((stub_loop idle_engine [] 0)\<lparr>m_async_closed := True, m_is_running := False\<rparr>)"
  by code_simp

text \<open>
  In general the wait ends with at least one of the two flags set, and no more is known.
\<close>

lemma spin_wait_exit:
  assumes "spin_wait s worker = Inr (t, s')"
  shows "m_timeout_timer_closed s' \<or> m_async_closed s'"
  using assms
proof (induction worker arbitrary: s t)
  case Nil
  then show ?case by (auto split: if_splits)
next
  case (Cons closed later)
  show ?case
  proof (cases "\<not> m_timeout_timer_closed s \<and> \<not> m_async_closed s")
    case True
    with Cons.prems obtain u where
      "spin_wait (foldl uv_close_callback s closed) later = Inr (u, s')"
      by (auto simp: emit_def split: sum.splits prod.splits)
    then show ?thesis by (rule Cons.IH)
  next
    case False
    with Cons.prems show ?thesis by auto
  qed
qed

subsection \<open>The bound does not change a result\<close>

text \<open>
  A run that ends otherwise than by \<open>OutOfFuel\<close> ends the same way, with the same
  calls and state, under every larger bound.
\<close>

lemma after_OutOfFuel [simp]: "after t e = OutOfFuel \<longleftrightarrow> e = OutOfFuel"
  by (cases e) auto

lemma inside_failure_OutOfFuel [simp]: "inside_failure c e = OutOfFuel \<longleftrightarrow> e = OutOfFuel"
  by (cases e) auto

lemma settled_Inr [simp]: "settled (Inr p)"
  by (simp add: settled_def)

lemma settled_emit [simp]: "settled (emit c s)"
  by (simp add: emit_def)

lemma settled_and_then:
  "settled (and_then r f) \<longleftrightarrow> settled r \<and> (\<forall>t s. r = Inr (t, s) \<longrightarrow> settled (f s))"
  by (auto simp: settled_def and_then_def split: sum.splits prod.splits)

lemma settled_and_then_emit: "settled (and_then (emit c s) f) \<longleftrightarrow> settled (f s)"
  by (simp add: settled_and_then emit_def del: and_then_Inr and_then_emit)

lemma settled_inside [simp]: "settled (inside c r) \<longleftrightarrow> settled r"
  by (auto simp: settled_def inside_def split: sum.splits prod.splits)

lemma and_then_carries:
  assumes "settled (and_then r f)"
    and "settled r \<Longrightarrow> r' = r"
    and "\<And>t s. r = Inr (t, s) \<Longrightarrow> settled (f s) \<Longrightarrow> f' s = f s"
  shows "and_then r' f' = and_then r f"
proof -
  from assms(1) have r: "settled r" and f: "\<And>t s. r = Inr (t, s) \<Longrightarrow> settled (f s)"
    by (simp_all add: settled_and_then del: and_then_Inr and_then_emit)
  from assms(2) [OF r] have eq: "r' = r" .
  show ?thesis
  proof (cases r)
    case (Inl e)
    with eq show ?thesis by simp
  next
    case (Inr p)
    obtain t s where p: "p = (t, s)" by (cases p)
    from assms(3) [OF _ f] Inr p have "f' s = f s" by simp
    with Inr p eq show ?thesis by simp
  qed
qed

lemma curl_start_timeout_carries:
  assumes "carries_over chk chk'" and "settled (curl_start_timeout chk s timeout_ms)"
  shows "curl_start_timeout chk' s timeout_ms = curl_start_timeout chk s timeout_ms"
  using assms
  by (auto simp: curl_start_timeout_def carries_over_def emit_def settled_def
      split: sum.splits prod.splits)

lemma callbacks_carries:
  assumes "carries_over chk chk'" and "settled (callbacks chk env s ns)"
  shows "callbacks chk' env s ns = callbacks chk env s ns"
  using assms(2)
proof (induction ns arbitrary: s)
  case Nil
  show ?case by simp
next
  case (Cons x xs)
  show ?case
    unfolding callbacks.simps
  proof (rule and_then_carries)
    show "settled (and_then
       (case x of TimerFunction timeout_ms \<Rightarrow> curl_start_timeout chk s timeout_ms
        | SocketFunction socket action socketp \<Rightarrow>
            curl_handle_socket_actions env s socket action socketp)
       (\<lambda>s1. callbacks chk env s1 xs))"
      using Cons.prems by simp
  next
    assume "settled (case x of TimerFunction timeout_ms \<Rightarrow> curl_start_timeout chk s timeout_ms
        | SocketFunction socket action socketp \<Rightarrow>
            curl_handle_socket_actions env s socket action socketp)"
    then show "(case x of TimerFunction timeout_ms \<Rightarrow> curl_start_timeout chk' s timeout_ms
        | SocketFunction socket action socketp \<Rightarrow>
            curl_handle_socket_actions env s socket action socketp)
      = (case x of TimerFunction timeout_ms \<Rightarrow> curl_start_timeout chk s timeout_ms
        | SocketFunction socket action socketp \<Rightarrow>
            curl_handle_socket_actions env s socket action socketp)"
      by (cases x) (simp_all add: curl_start_timeout_carries [OF assms(1)])
  next
    fix t s1
    assume "settled (callbacks chk env s1 xs)"
    then show "callbacks chk' env s1 xs = callbacks chk env s1 xs" by (rule Cons.IH)
  qed
qed

lemma inside_callbacks_carries:
  assumes "carries_over chk chk'" and "settled (inside c (callbacks chk env s ns))"
  shows "inside c (callbacks chk' env s ns) = inside c (callbacks chk env s ns)"
  using assms callbacks_carries [OF assms(1), of env s ns] by simp

lemma socket_action_loop_carries:
  assumes "carries_over chk chk'" and "settled (socket_action_loop chk env n s socket ev)"
  shows "socket_action_loop chk' env (n + k) s socket ev = socket_action_loop chk env n s socket ev"
  using assms(2)
proof (induction n arbitrary: s)
  case 0
  then show ?case by (simp add: settled_def)
next
  case (Suc n)
  obtain ns curl_code e where sa:
    "curl_multi_socket_action env (m_cmh s) socket ev = (ns, curl_code, e)"
    by (cases "curl_multi_socket_action env (m_cmh s) socket ev") auto
  have "and_then (inside (Curl_multi_socket_action socket ev curl_code)
                      (callbacks chk' env (s\<lparr>m_cmh := e\<rparr>) ns)) (\<lambda>s1.
          if curl_code = CURLM_CALL_MULTI_PERFORM
          then socket_action_loop chk' env (n + k) s1 socket ev
          else Inr ([], s1))
      = and_then (inside (Curl_multi_socket_action socket ev curl_code)
                      (callbacks chk env (s\<lparr>m_cmh := e\<rparr>) ns)) (\<lambda>s1.
          if curl_code = CURLM_CALL_MULTI_PERFORM
          then socket_action_loop chk env n s1 socket ev
          else Inr ([], s1))"
  proof (rule and_then_carries)
    show "settled (and_then (inside (Curl_multi_socket_action socket ev curl_code)
                      (callbacks chk env (s\<lparr>m_cmh := e\<rparr>) ns)) (\<lambda>s1.
          if curl_code = CURLM_CALL_MULTI_PERFORM
          then socket_action_loop chk env n s1 socket ev
          else Inr ([], s1)))"
      using Suc.prems sa by simp
  next
    assume "settled (inside (Curl_multi_socket_action socket ev curl_code)
                      (callbacks chk env (s\<lparr>m_cmh := e\<rparr>) ns))"
    then show "inside (Curl_multi_socket_action socket ev curl_code)
                      (callbacks chk' env (s\<lparr>m_cmh := e\<rparr>) ns)
        = inside (Curl_multi_socket_action socket ev curl_code)
                      (callbacks chk env (s\<lparr>m_cmh := e\<rparr>) ns)"
      by (rule inside_callbacks_carries [OF assms(1)])
  next
    fix t s1
    assume "settled (if curl_code = CURLM_CALL_MULTI_PERFORM
          then socket_action_loop chk env n s1 socket ev else Inr ([], s1))"
    then show "(if curl_code = CURLM_CALL_MULTI_PERFORM
          then socket_action_loop chk' env (n + k) s1 socket ev else Inr ([], s1))
        = (if curl_code = CURLM_CALL_MULTI_PERFORM
          then socket_action_loop chk env n s1 socket ev else Inr ([], s1))"
      using Suc.IH by (simp split: if_splits)
  qed
  with sa show ?case by simp
qed

lemma done_message_carries:
  assumes "carries_over chk chk'" and "settled (done_message chk env s message)"
  shows "done_message chk' env s message = done_message chk env s message"
proof -
  obtain ns e where rm:
    "curl_multi_remove_handle env (m_cmh s) (easy_handle message) = (ns, e)"
    by (cases "curl_multi_remove_handle env (m_cmh s) (easy_handle message)") auto
  from assms(2) rm have "settled (inside (Curl_multi_remove_handle (easy_handle message))
      (callbacks chk env (s\<lparr>m_cmh := e\<rparr>) ns))"
    unfolding done_message_def Let_def
    by (simp add: settled_and_then emit_def del: and_then_Inr and_then_emit)
  from inside_callbacks_carries [OF assms(1) this] rm show ?thesis
    unfolding done_message_def Let_def by (simp add: emit_def)
qed

lemma info_read_loop_carries:
  assumes "carries_over chk chk'" and "settled (info_read_loop chk env n s)"
  shows "info_read_loop chk' env (n + k) s = info_read_loop chk env n s"
  using assms(2)
proof (induction n arbitrary: s)
  case 0
  then show ?case by (simp add: settled_def)
next
  case (Suc n)
  obtain m e where ir: "curl_multi_info_read env (m_cmh s) = (m, e)"
    by (cases "curl_multi_info_read env (m_cmh s)") auto
  show ?case
  proof (cases m)
    case None
    with ir show ?thesis by simp
  next
    case (Some message)
    let ?step = "\<lambda>c. if msg message = CURLMSG_DONE
        then done_message c env (s\<lparr>m_cmh := e\<rparr>) message else Inr ([], s\<lparr>m_cmh := e\<rparr>)"
    from Suc.prems ir Some have st: "settled (and_then (?step chk) (info_read_loop chk env n))"
      by (simp add: settled_and_then_emit del: and_then_Inr and_then_emit)
    have "and_then (?step chk') (info_read_loop chk' env (n + k))
        = and_then (?step chk) (info_read_loop chk env n)"
    proof (rule and_then_carries [OF st])
      assume "settled (?step chk)"
      then show "?step chk' = ?step chk"
        by (simp add: done_message_carries [OF assms(1)] split: if_splits)
    next
      fix t s1
      assume "settled (info_read_loop chk env n s1)"
      then show "info_read_loop chk' env (n + k) s1 = info_read_loop chk env n s1"
        by (rule Suc.IH)
    qed
    with ir Some show ?thesis by (simp add: emit_def)
  qed
qed

lemma checkActions_carries_Suc: "carries_over (checkActions n env) (checkActions (Suc n) env)"
proof (induction n)
  case 0
  show ?case by (simp add: carries_over_def settled_def)
next
  case (Suc n)
  show ?case
    unfolding carries_over_def
  proof (intro allI impI)
    fix s socket ev
    assume st: "settled (checkActions (Suc n) env s socket ev)"
    have "and_then (socket_action_loop (checkActions (Suc n) env) env (Suc n) s socket ev)
            (info_read_loop (checkActions (Suc n) env) env (Suc n))
        = and_then (socket_action_loop (checkActions n env) env n s socket ev)
            (info_read_loop (checkActions n env) env n)"
    proof (rule and_then_carries)
      show "settled (and_then (socket_action_loop (checkActions n env) env n s socket ev)
            (info_read_loop (checkActions n env) env n))"
        using st by (simp only: checkActions.simps)
    next
      assume "settled (socket_action_loop (checkActions n env) env n s socket ev)"
      from socket_action_loop_carries [OF Suc.IH this, of 1]
      show "socket_action_loop (checkActions (Suc n) env) env (Suc n) s socket ev
          = socket_action_loop (checkActions n env) env n s socket ev"
        by (simp only: Suc_eq_plus1)
    next
      fix t s1
      assume "settled (info_read_loop (checkActions n env) env n s1)"
      from info_read_loop_carries [OF Suc.IH this, of 1]
      show "info_read_loop (checkActions (Suc n) env) env (Suc n) s1
          = info_read_loop (checkActions n env) env n s1"
        by (simp only: Suc_eq_plus1)
    qed
    then show "checkActions (Suc (Suc n)) env s socket ev = checkActions (Suc n) env s socket ev"
      by (simp only: checkActions.simps)
  qed
qed

lemma checkActions_carries: "carries_over (checkActions n env) (checkActions (n + k) env)"
proof (induction k)
  case 0
  show ?case by (simp add: carries_over_def)
next
  case (Suc k)
  from checkActions_carries_Suc [of "n + k" env] Suc.IH show ?case
    by (auto simp: carries_over_def)
qed

lemma accept_loop_carries:
  assumes "carries_over chk chk'" and "settled (accept_loop chk env s i rs)"
  shows "accept_loop chk' env s i rs = accept_loop chk env s i rs"
  using assms(2)
proof (induction rs arbitrary: s i)
  case Nil
  show ?case by simp
next
  case (Cons request rest)
  show ?case
  proof (cases "m_request_handle request")
    case None
    then show ?thesis by simp
  next
    case (Some h)
    obtain ns e where ah: "curl_multi_add_handle env (m_cmh s) (m_curl_handle env h) = (ns, e)"
      by (cases "curl_multi_add_handle env (m_cmh s) (m_curl_handle env h)") auto
    let ?s0 = "s\<lparr>m_pending_requests := (m_pending_requests s)[i := \<lparr>m_request_handle = None\<rparr>],
                 m_cmh := e\<rparr>"
    from Cons.prems Some ah have st: "settled (and_then
        (inside (Curl_multi_add_handle (m_curl_handle env h)) (callbacks chk env ?s0 ns))
        (\<lambda>s1. accept_loop chk env s1 (Suc i) rest))"
      by simp
    have "and_then
        (inside (Curl_multi_add_handle (m_curl_handle env h)) (callbacks chk' env ?s0 ns))
        (\<lambda>s1. accept_loop chk' env s1 (Suc i) rest)
      = and_then
        (inside (Curl_multi_add_handle (m_curl_handle env h)) (callbacks chk env ?s0 ns))
        (\<lambda>s1. accept_loop chk env s1 (Suc i) rest)"
    proof (rule and_then_carries [OF st])
      assume "settled (inside (Curl_multi_add_handle (m_curl_handle env h))
          (callbacks chk env ?s0 ns))"
      then show "inside (Curl_multi_add_handle (m_curl_handle env h)) (callbacks chk' env ?s0 ns)
          = inside (Curl_multi_add_handle (m_curl_handle env h)) (callbacks chk env ?s0 ns)"
        by (rule inside_callbacks_carries [OF assms(1)])
    next
      fix t s1
      assume "settled (accept_loop chk env s1 (Suc i) rest)"
      then show "accept_loop chk' env s1 (Suc i) rest = accept_loop chk env s1 (Suc i) rest"
        by (rule Cons.IH)
    qed
    with Some ah show ?thesis by simp
  qed
qed

lemma requests_accept_async_carries:
  assumes "settled (requests_accept_async n env s)"
  shows "requests_accept_async (n + k) env s = requests_accept_async n env s"
proof (cases "m_pending_requests_lock s")
  case True
  then show ?thesis by (simp add: requests_accept_async_def)
next
  case False
  let ?s1 = "s\<lparr>m_pending_requests_lock := True\<rparr>"
  from assms False have "settled (and_then
      (accept_loop (checkActions n env) env ?s1 0 (m_pending_requests ?s1))
      (\<lambda>s2. emit Mutex_unlock
          (s2\<lparr>m_active_request_count :=
                 m_active_request_count s2 + of_nat (length (m_pending_requests s2)),
               m_pending_requests := [],
               m_pending_requests_lock := False\<rparr>)))"
    by (simp add: requests_accept_async_def settled_and_then_emit
        del: and_then_Inr and_then_emit)
  then have "settled (accept_loop (checkActions n env) env ?s1 0 (m_pending_requests s))"
    by (simp add: settled_and_then)
  from accept_loop_carries [OF checkActions_carries this, of k] False show ?thesis
    by (simp add: requests_accept_async_def emit_def)
qed


subsection \<open>Submitting from the completion callback\<close>

text \<open>
  C2 says that \<open>AddRequest\<close> may be called from inside the user's completion callback
  without deadlock, also when the callback is reached from the queue drain.
  \<open>requests_accept_async\<close> holds the pending-queue mutex while it calls
  \<open>curl_multi_add_handle\<close>. When the engine asks for a zero timeout from inside that
  call, \<open>curl_start_timeout\<close> runs \<open>checkActions\<close> in place; a finished transfer
  then reaches \<open>OnComplete\<close>, and the callback's \<open>AddRequest\<close> locks the mutex its own
  thread holds. Reached from the timer callback instead, the same callback's
  \<open>AddRequest\<close> appends the request and fires the wakeup. Both runs are the same
  under every bound from 3 on.
\<close>

theorem AddRequest_in_callback_inside_drain_deadlocks:
  "requests_accept_async (3 + k) resubmitting (stub_loop eager_engine [request_of 7] 0) =
     Inl (Deadlock
       [Mutex_lock,
        Curl_multi_add_handle 7
          [Uv_timer_stop,
           Curl_multi_socket_action CURL_SOCKET_TIMEOUT 0 CURLM_OK [],
           Curl_multi_info_read (Some done_7),
           Curl_easy_getinfo_private 7,
           Curl_multi_remove_handle 7 [],
           Request_setRequestStatus \<lparr>stub_curl = 7, stub_status = None\<rparr> 28,
           IRequestCb_OnComplete
             \<lparr>m_request_handle = Some \<lparr>stub_curl = 7, stub_status = Some 28\<rparr>\<rparr>
             [Request_prepareForPerform \<lparr>stub_curl = 9, stub_status = None\<rparr>,
              Mutex_lock]]])
   \<and> on_uv_timeout_callback (3 + k) resubmitting (stub_loop finished_engine [] 1) =
     Inr ([Curl_multi_socket_action CURL_SOCKET_TIMEOUT 0 CURLM_OK [],
           Curl_multi_info_read (Some done_7),
           Curl_easy_getinfo_private 7,
           Curl_multi_remove_handle 7 [],
           Request_setRequestStatus \<lparr>stub_curl = 7, stub_status = None\<rparr> 28,
           IRequestCb_OnComplete
             \<lparr>m_request_handle = Some \<lparr>stub_curl = 7, stub_status = Some 28\<rparr>\<rparr>
             [Request_prepareForPerform \<lparr>stub_curl = 9, stub_status = None\<rparr>,
              Mutex_lock, Mutex_unlock, Uv_async_send],
           Curl_multi_info_read None],
          stub_loop idle_engine [request_of 9] 0)"
proof -
  have drain: "requests_accept_async 3 resubmitting (stub_loop eager_engine [request_of 7] 0) =
     Inl (Deadlock
       [Mutex_lock,
        Curl_multi_add_handle 7
          [Uv_timer_stop,
           Curl_multi_socket_action CURL_SOCKET_TIMEOUT 0 CURLM_OK [],
           Curl_multi_info_read (Some done_7),
           Curl_easy_getinfo_private 7,
           Curl_multi_remove_handle 7 [],
           Request_setRequestStatus \<lparr>stub_curl = 7, stub_status = None\<rparr> 28,
           IRequestCb_OnComplete
             \<lparr>m_request_handle = Some \<lparr>stub_curl = 7, stub_status = Some 28\<rparr>\<rparr>
             [Request_prepareForPerform \<lparr>stub_curl = 9, stub_status = None\<rparr>,
              Mutex_lock]]])"
    by code_simp
  then have "settled (requests_accept_async 3 resubmitting
      (stub_loop eager_engine [request_of 7] 0))"
    by (simp only: settled_def) simp
  from requests_accept_async_carries [OF this, of k] drain
  have a: "requests_accept_async (3 + k) resubmitting
      (stub_loop eager_engine [request_of 7] 0) =
     Inl (Deadlock
       [Mutex_lock,
        Curl_multi_add_handle 7
          [Uv_timer_stop,
           Curl_multi_socket_action CURL_SOCKET_TIMEOUT 0 CURLM_OK [],
           Curl_multi_info_read (Some done_7),
           Curl_easy_getinfo_private 7,
           Curl_multi_remove_handle 7 [],
           Request_setRequestStatus \<lparr>stub_curl = 7, stub_status = None\<rparr> 28,
           IRequestCb_OnComplete
             \<lparr>m_request_handle = Some \<lparr>stub_curl = 7, stub_status = Some 28\<rparr>\<rparr>
             [Request_prepareForPerform \<lparr>stub_curl = 9, stub_status = None\<rparr>,
              Mutex_lock]]])"
    by (simp only:)
  have timer: "checkActions 3 resubmitting (stub_loop finished_engine [] 1)
       CURL_SOCKET_TIMEOUT 0 =
     Inr ([Curl_multi_socket_action CURL_SOCKET_TIMEOUT 0 CURLM_OK [],
           Curl_multi_info_read (Some done_7),
           Curl_easy_getinfo_private 7,
           Curl_multi_remove_handle 7 [],
           Request_setRequestStatus \<lparr>stub_curl = 7, stub_status = None\<rparr> 28,
           IRequestCb_OnComplete
             \<lparr>m_request_handle = Some \<lparr>stub_curl = 7, stub_status = Some 28\<rparr>\<rparr>
             [Request_prepareForPerform \<lparr>stub_curl = 9, stub_status = None\<rparr>,
              Mutex_lock, Mutex_unlock, Uv_async_send],
           Curl_multi_info_read None],
          stub_loop idle_engine [request_of 9] 0)"
    by code_simp
  then have "settled (checkActions 3 resubmitting (stub_loop finished_engine [] 1)
      CURL_SOCKET_TIMEOUT 0)"
    by (simp only: settled_def) simp
  with checkActions_carries [of 3 resubmitting k]
  have "checkActions (3 + k) resubmitting (stub_loop finished_engine [] 1)
       CURL_SOCKET_TIMEOUT 0
     = checkActions 3 resubmitting (stub_loop finished_engine [] 1) CURL_SOCKET_TIMEOUT 0"
    unfolding carries_over_def by blast
  with timer have b: "on_uv_timeout_callback (3 + k) resubmitting
      (stub_loop finished_engine [] 1) =
     Inr ([Curl_multi_socket_action CURL_SOCKET_TIMEOUT 0 CURLM_OK [],
           Curl_multi_info_read (Some done_7),
           Curl_easy_getinfo_private 7,
           Curl_multi_remove_handle 7 [],
           Request_setRequestStatus \<lparr>stub_curl = 7, stub_status = None\<rparr> 28,
           IRequestCb_OnComplete
             \<lparr>m_request_handle = Some \<lparr>stub_curl = 7, stub_status = Some 28\<rparr>\<rparr>
             [Request_prepareForPerform \<lparr>stub_curl = 9, stub_status = None\<rparr>,
              Mutex_lock, Mutex_unlock, Uv_async_send],
           Curl_multi_info_read None],
          stub_loop idle_engine [request_of 9] 0)"
    by (simp only: on_uv_timeout_callback_def)
  from a b show ?thesis by (rule conjI)
qed

subsection \<open>The count, the mutex and the queue\<close>

lemma completed_simps [simp]:
  "completed [] = 0"
  "completed (c # t) = completions c + completed t"
  "completed (t @ u) = completed t + completed u"
  by (simp_all add: completed_def)

lemma accounts_Inl [simp]: "accounts s (Inl e)"
  by (simp add: accounts_def)

lemma accounts_Inr:
  "accounts s (Inr (t, s')) \<longleftrightarrow>
     m_active_request_count s' + of_nat (completed t) = m_active_request_count s
     \<and> m_pending_requests_lock s' = m_pending_requests_lock s
     \<and> (m_pending_requests_lock s \<longrightarrow> m_pending_requests s' = m_pending_requests s)"
  by (simp add: accounts_def)

lemma accounts_and_then:
  assumes "accounts s r" and "\<And>t1 s1. r = Inr (t1, s1) \<Longrightarrow> accounts s1 (f s1)"
  shows "accounts s (and_then r f)"
proof (cases r)
  case (Inl e)
  then show ?thesis by simp
next
  case (Inr p)
  obtain t1 s1 where p: "p = (t1, s1)" by (cases p)
  with Inr have r: "r = Inr (t1, s1)" by simp
  from assms(2) [OF r] have f: "accounts s1 (f s1)" .
  from assms(1) r have a: "accounts s (Inr (t1, s1))" by simp
  show ?thesis
  proof (cases "f s1")
    case (Inl e)
    with r show ?thesis by simp
  next
    case (Inr q)
    obtain t2 s2 where q: "q = (t2, s2)" by (cases q)
    from f Inr q have b: "accounts s1 (Inr (t2, s2))" by simp
    from a have a1: "m_active_request_count s1 + of_nat (completed t1) = m_active_request_count s"
      and a2: "m_pending_requests_lock s1 = m_pending_requests_lock s"
      and a3: "m_pending_requests_lock s \<longrightarrow> m_pending_requests s1 = m_pending_requests s"
      by (simp_all add: accounts_Inr)
    from b have b1: "m_active_request_count s2 + of_nat (completed t2) = m_active_request_count s1"
      and b2: "m_pending_requests_lock s2 = m_pending_requests_lock s1"
      and b3: "m_pending_requests_lock s1 \<longrightarrow> m_pending_requests s2 = m_pending_requests s1"
      by (simp_all add: accounts_Inr)
    have "m_active_request_count s2 + of_nat (completed (t1 @ t2))
        = (m_active_request_count s2 + of_nat (completed t2)) + of_nat (completed t1)"
      by (simp add: add.assoc add.commute)
    also have "\<dots> = m_active_request_count s" by (simp add: a1 b1)
    finally have "accounts s (Inr (t1 @ t2, s2))"
      using a2 a3 b2 b3 by (simp add: accounts_Inr)
    with r Inr q show ?thesis by simp
  qed
qed

lemma accounts_same:
  assumes "m_active_request_count s0 = m_active_request_count s"
    and "m_pending_requests_lock s0 = m_pending_requests_lock s"
    and "m_pending_requests s0 = m_pending_requests s"
  shows "accounts s0 r = accounts s r"
  using assms by (simp add: accounts_def split: sum.splits prod.splits)

lemma accounts_inside:
  assumes "accounts s r" and "\<And>sub. completions (c sub) = completed sub"
  shows "accounts s (inside c r)"
  using assms by (auto simp: inside_def accounts_def split: sum.splits prod.splits)

lemma accounts_AddRequest: "accounts s (AddRequest env s request)"
  by (auto simp: AddRequest_def accounts_Inr emit_def split: option.splits)

lemma accounts_submit_all: "accounts s (submit_all env s rs)"
proof (induction rs arbitrary: s)
  case Nil
  show ?case by (simp add: accounts_Inr)
next
  case (Cons r rs)
  show ?case
    by (simp only: submit_all.simps) (rule accounts_and_then, rule accounts_AddRequest, rule Cons.IH)
qed

lemma accounts_socket_actions:
  "accounts s (curl_handle_socket_actions env s socket action socketp)"
  by (auto simp: curl_handle_socket_actions_def CurlContext_new_def CurlContext_Close_def
      accounts_Inr Let_def split: option.splits)

lemma accounts_start_timeout:
  assumes "accounting chk"
  shows "accounts s (curl_start_timeout chk s timeout_ms)"
proof -
  have e: "accounts s (emit Uv_timer_stop s)"
    by (simp add: emit_def accounts_Inr)
  show ?thesis
    unfolding curl_start_timeout_def
  proof (rule accounts_and_then [OF e])
    fix t1 s1
    from assms have "accounts s1 (chk s1 CURL_SOCKET_TIMEOUT 0)"
      by (simp add: accounting_def)
    then show "accounts s1
       (if 0 < timeout_ms then emit (Uv_timer_start On_uv_timeout_callback timeout_ms 0) s1
        else if timeout_ms = 0 then chk s1 CURL_SOCKET_TIMEOUT 0 else Inr ([], s1))"
      by (simp add: emit_def accounts_Inr)
  qed
qed

lemma accounts_callbacks:
  assumes "accounting chk"
  shows "accounts s (callbacks chk env s ns)"
proof (induction ns arbitrary: s)
  case Nil
  show ?case by (simp add: accounts_Inr)
next
  case (Cons x xs)
  have "accounts s (case x of
          TimerFunction timeout_ms \<Rightarrow> curl_start_timeout chk s timeout_ms
        | SocketFunction socket action socketp \<Rightarrow>
            curl_handle_socket_actions env s socket action socketp)"
    by (cases x) (simp_all add: accounts_start_timeout [OF assms] accounts_socket_actions)
  then show ?case
    by (simp only: callbacks.simps) (rule accounts_and_then, assumption, rule Cons.IH)
qed

lemma accounts_callbacks_cmh:
  assumes "accounting chk"
  shows "accounts s (callbacks chk env (s\<lparr>m_cmh := e\<rparr>) ns)"
proof -
  have "accounts (s\<lparr>m_cmh := e\<rparr>) (callbacks chk env (s\<lparr>m_cmh := e\<rparr>) ns)"
    by (rule accounts_callbacks [OF assms])
  then show ?thesis
    by (simp add: accounts_same [of "s\<lparr>m_cmh := e\<rparr>" s])
qed

lemma accounts_socket_action_loop:
  assumes "accounting chk"
  shows "accounts s (socket_action_loop chk env n s socket ev)"
proof (induction n arbitrary: s)
  case 0
  show ?case by simp
next
  case (Suc n)
  obtain ns curl_code e where sa:
    "curl_multi_socket_action env (m_cmh s) socket ev = (ns, curl_code, e)"
    by (cases "curl_multi_socket_action env (m_cmh s) socket ev") auto
  have "accounts s (inside (Curl_multi_socket_action socket ev curl_code)
      (callbacks chk env (s\<lparr>m_cmh := e\<rparr>) ns))"
    by (rule accounts_inside [OF accounts_callbacks_cmh [OF assms]]) (simp add: completed_def)
  then show ?case
    using sa by (auto simp: accounts_Inr intro!: accounts_and_then Suc.IH)
qed

lemma accounts_complete:
  "accounts s (and_then (inside (IRequestCb_OnComplete r) (submit_all env s rs))
     (\<lambda>s4. Inr ([], s4\<lparr>m_active_request_count := m_active_request_count s4 - 1\<rparr>)))"
proof (cases "submit_all env s rs")
  case (Inl e)
  then show ?thesis by (simp add: inside_def)
next
  case (Inr p)
  obtain sub s4 where p: "p = (sub, s4)" by (cases p)
  from accounts_submit_all [of s env rs] Inr p
  have "m_active_request_count s4 + of_nat (completed sub) = m_active_request_count s"
    and "m_pending_requests_lock s4 = m_pending_requests_lock s"
    and "m_pending_requests_lock s \<longrightarrow> m_pending_requests s4 = m_pending_requests s"
    by (simp_all add: accounts_Inr)
  then show ?thesis
    using Inr p by (simp add: inside_def accounts_Inr completed_def)
qed

lemma accounts_done_message:
  assumes "accounting chk"
  shows "accounts s (done_message chk env s message)"
proof -
  obtain ns e where rm:
    "curl_multi_remove_handle env (m_cmh s) (easy_handle message) = (ns, e)"
    by (cases "curl_multi_remove_handle env (m_cmh s) (easy_handle message)") auto
  have a: "accounts s (inside (Curl_multi_remove_handle (easy_handle message))
      (callbacks chk env (s\<lparr>m_cmh := e\<rparr>) ns))"
    by (rule accounts_inside [OF accounts_callbacks_cmh [OF assms]]) (simp add: completed_def)
  have b: "accounts s2 (and_then (emit c s2) (\<lambda>s3.
      and_then (inside (IRequestCb_OnComplete r) (submit_all env s3 (rs s3)))
       (\<lambda>s4. Inr ([], s4\<lparr>m_active_request_count := m_active_request_count s4 - 1\<rparr>))))"
    if "completions c = 0" for s2 c r rs
  proof (rule accounts_and_then)
    show "accounts s2 (emit c s2)" using that by (simp add: emit_def accounts_Inr)
  next
    fix t1 s1 assume "emit c s2 = Inr (t1, s1)"
    show "accounts s1 (and_then (inside (IRequestCb_OnComplete r) (submit_all env s1 (rs s1)))
       (\<lambda>s4. Inr ([], s4\<lparr>m_active_request_count := m_active_request_count s4 - 1\<rparr>)))"
      by (rule accounts_complete)
  qed
  have "accounts s (and_then (inside (Curl_multi_remove_handle (easy_handle message))
      (callbacks chk env (s\<lparr>m_cmh := e\<rparr>) ns)) (\<lambda>s2.
        and_then (emit (Request_setRequestStatus
            (curlinfo_private env (m_cmh s) (easy_handle message)) (data_result message)) s2) (\<lambda>s3.
        and_then (inside (IRequestCb_OnComplete \<lparr>m_request_handle = Some (setRequestStatus env
            (curlinfo_private env (m_cmh s) (easy_handle message)) (data_result message))\<rparr>)
           (submit_all env s3 (OnComplete env \<lparr>m_request_handle = Some (setRequestStatus env
            (curlinfo_private env (m_cmh s) (easy_handle message)) (data_result message))\<rparr>
              (m_active_request_count s3))))
         (\<lambda>s4. Inr ([], s4\<lparr>m_active_request_count := m_active_request_count s4 - 1\<rparr>)))))"
    by (rule accounts_and_then [OF a]) (rule b, simp)
  then show ?thesis
    unfolding done_message_def Let_def
    by (simp add: emit_def rm accounts_def split: sum.splits prod.splits)
qed

lemma accounts_info_read_loop:
  assumes "accounting chk"
  shows "accounts s (info_read_loop chk env n s)"
proof (induction n arbitrary: s)
  case 0
  show ?case by simp
next
  case (Suc n)
  obtain m e where ir: "curl_multi_info_read env (m_cmh s) = (m, e)"
    by (cases "curl_multi_info_read env (m_cmh s)") auto
  show ?case
  proof (cases m)
    case None
    with ir show ?thesis by (simp add: emit_def accounts_Inr)
  next
    case (Some message)
    have d: "accounts s1 (if msg message = CURLMSG_DONE then done_message chk env s1 message
                          else Inr ([], s1))" for s1
      by (simp add: accounts_done_message [OF assms] accounts_Inr)
    have "accounts (s\<lparr>m_cmh := e\<rparr>)
       (and_then (emit (Curl_multi_info_read (Some message)) (s\<lparr>m_cmh := e\<rparr>)) (\<lambda>s1.
          and_then (if msg message = CURLMSG_DONE then done_message chk env s1 message
                    else Inr ([], s1)) (\<lambda>s2.
          info_read_loop chk env n s2)))"
      by (intro accounts_and_then d Suc.IH) (simp add: emit_def accounts_Inr)
    then have "accounts s
       (and_then (emit (Curl_multi_info_read (Some message)) (s\<lparr>m_cmh := e\<rparr>)) (\<lambda>s1.
          and_then (if msg message = CURLMSG_DONE then done_message chk env s1 message
                    else Inr ([], s1)) (\<lambda>s2.
          info_read_loop chk env n s2)))"
      by (simp add: accounts_same [of "s\<lparr>m_cmh := e\<rparr>" s])
    with ir Some show ?thesis by simp
  qed
qed

lemma accounting_checkActions: "accounting (checkActions n env)"
proof (induction n)
  case 0
  show ?case by (simp add: accounting_def)
next
  case (Suc n)
  show ?case
    unfolding accounting_def
  proof (intro allI)
    fix s socket ev
    show "accounts s (checkActions (Suc n) env s socket ev)"
      by (simp only: checkActions.simps)
        (intro accounts_and_then accounts_socket_action_loop [OF Suc.IH]
          accounts_info_read_loop [OF Suc.IH])
  qed
qed

lemma socket_action_loop_shape:
  assumes "socket_action_loop chk env n s socket ev = Inr (t, s')"
  shows "\<exists>subs curl_code sub.
     t = map (Curl_multi_socket_action socket ev CURLM_CALL_MULTI_PERFORM) subs
         @ [Curl_multi_socket_action socket ev curl_code sub]
     \<and> curl_code \<noteq> CURLM_CALL_MULTI_PERFORM"
  using assms
proof (induction n arbitrary: s t)
  case 0
  then show ?case by simp
next
  case (Suc n)
  obtain ns curl_code e where sa:
    "curl_multi_socket_action env (m_cmh s) socket ev = (ns, curl_code, e)"
    by (cases "curl_multi_socket_action env (m_cmh s) socket ev") auto
  from Suc.prems sa obtain sub s1 t2 where
    cb: "callbacks chk env (s\<lparr>m_cmh := e\<rparr>) ns = Inr (sub, s1)" and
    rest: "(if curl_code = CURLM_CALL_MULTI_PERFORM
            then socket_action_loop chk env n s1 socket ev else Inr ([], s1)) = Inr (t2, s')" and
    t: "t = [Curl_multi_socket_action socket ev curl_code sub] @ t2"
    by (auto simp: and_then_returns inside_returns)
  show ?case
  proof (cases "curl_code = CURLM_CALL_MULTI_PERFORM")
    case True
    with rest have "socket_action_loop chk env n s1 socket ev = Inr (t2, s')" by simp
    from Suc.IH [OF this] obtain subs code2 sub2 where
      t2: "t2 = map (Curl_multi_socket_action socket ev CURLM_CALL_MULTI_PERFORM) subs
                @ [Curl_multi_socket_action socket ev code2 sub2]"
      and c2: "code2 \<noteq> CURLM_CALL_MULTI_PERFORM"
      by blast
    from t t2 True have
      "t = map (Curl_multi_socket_action socket ev CURLM_CALL_MULTI_PERFORM) (sub # subs)
           @ [Curl_multi_socket_action socket ev code2 sub2]"
      by simp
    with c2 show ?thesis by blast
  next
    case False
    with rest t have "t = map (Curl_multi_socket_action socket ev CURLM_CALL_MULTI_PERFORM) []
        @ [Curl_multi_socket_action socket ev curl_code sub]"
      by simp
    with False show ?thesis by blast
  qed
qed



lemma done_message_unfold:
  assumes "done_message chk env s message = Inr (t, s')"
  shows "\<exists>ns e sub1 s2 sub2 s4.
     curl_multi_remove_handle env (m_cmh s) (easy_handle message) = (ns, e)
     \<and> callbacks chk env (s\<lparr>m_cmh := e\<rparr>) ns = Inr (sub1, s2)
     \<and> submit_all env s2
          (OnComplete env
             \<lparr>m_request_handle = Some (setRequestStatus env
                (curlinfo_private env (m_cmh s) (easy_handle message)) (data_result message))\<rparr>
             (m_active_request_count s2)) = Inr (sub2, s4)
     \<and> t = [Curl_easy_getinfo_private (easy_handle message),
            Curl_multi_remove_handle (easy_handle message) sub1,
            Request_setRequestStatus (curlinfo_private env (m_cmh s) (easy_handle message))
              (data_result message),
            IRequestCb_OnComplete
              \<lparr>m_request_handle = Some (setRequestStatus env
                 (curlinfo_private env (m_cmh s) (easy_handle message)) (data_result message))\<rparr>
              sub2]
     \<and> s' = s4\<lparr>m_active_request_count := m_active_request_count s4 - 1\<rparr>"
proof -
  obtain ns e where rm:
    "curl_multi_remove_handle env (m_cmh s) (easy_handle message) = (ns, e)"
    by (cases "curl_multi_remove_handle env (m_cmh s) (easy_handle message)") auto
  from assms rm show ?thesis
    unfolding done_message_def Let_def
    by (auto simp: and_then_returns inside_returns emit_def simp del: and_then_Inr and_then_emit)
qed

lemma done_message_shape:
  assumes "done_message chk env s message = Inr (t, s')"
  shows "\<exists>sub1 sub2.
     t = [Curl_easy_getinfo_private (easy_handle message),
          Curl_multi_remove_handle (easy_handle message) sub1,
          Request_setRequestStatus (curlinfo_private env (m_cmh s) (easy_handle message))
            (data_result message),
          IRequestCb_OnComplete
            \<lparr>m_request_handle = Some (setRequestStatus env
               (curlinfo_private env (m_cmh s) (easy_handle message)) (data_result message))\<rparr>
            sub2]"
  using done_message_unfold [OF assms] by blast

lemma done_message_drains:
  assumes "done_message chk env s message = Inr (t, s')"
  shows "\<forall>c \<in> set t. drains c" and "t \<noteq> []"
  using done_message_shape [OF assms] by auto

lemma info_read_loop_shape:
  assumes "info_read_loop chk env n s = Inr (t, s')"
  shows "(\<forall>c \<in> set t. drains c) \<and> (\<exists>m u. t = Curl_multi_info_read m # u)"
  using assms
proof (induction n arbitrary: s t)
  case 0
  then show ?case by simp
next
  case (Suc n)
  obtain m e where ir: "curl_multi_info_read env (m_cmh s) = (m, e)"
    by (cases "curl_multi_info_read env (m_cmh s)") auto
  show ?case
  proof (cases m)
    case None
    with ir Suc.prems show ?thesis by (auto simp: emit_def)
  next
    case (Some message)
    with ir Suc.prems obtain t1 s1 t2 where
      d: "(if msg message = CURLMSG_DONE then done_message chk env (s\<lparr>m_cmh := e\<rparr>) message
           else Inr ([], s\<lparr>m_cmh := e\<rparr>)) = Inr (t1, s1)"
      and l: "info_read_loop chk env n s1 = Inr (t2, s')"
      and t: "t = Curl_multi_info_read (Some message) # t1 @ t2"
      by (auto simp: and_then_returns emit_def simp del: and_then_Inr and_then_emit)
    from d have "\<forall>c \<in> set t1. drains c"
      using done_message_drains(1) by (fastforce split: if_splits)
    moreover from Suc.IH [OF l] have "\<forall>c \<in> set t2. drains c" by blast
    ultimately show ?thesis using t by auto
  qed
qed

lemma drains_not_socket_action: "drains c \<Longrightarrow> \<not> is_socket_action c"
  by (cases c) auto


subsection \<open>The engine driver\<close>

text \<open>
  C4. Whenever \<open>checkActions(fd, event_bitmask)\<close> returns, the calls it made are, in
  order: one or more calls of the engine's driver with that socket and mask, each but
  the last answered \<open>CURLM_CALL_MULTI_PERFORM\<close> and the last answered otherwise; and
  after them only the calls that drain the engine's messages and process the
  \<open>DONE\<close> ones, starting with \<open>curl_multi_info_read\<close>. No call of the driver
  follows the first read.
\<close>

theorem checkActions_drives_then_drains:
  assumes "checkActions n env s socket event_bitmask = Inr (t, s')"
  shows "\<exists>subs curl_code sub rest.
     t = map (Curl_multi_socket_action socket event_bitmask CURLM_CALL_MULTI_PERFORM) subs
         @ Curl_multi_socket_action socket event_bitmask curl_code sub # rest
     \<and> curl_code \<noteq> CURLM_CALL_MULTI_PERFORM
     \<and> (\<forall>c \<in> set rest. drains c \<and> \<not> is_socket_action c)
     \<and> (\<exists>m u. rest = Curl_multi_info_read m # u)"
proof (cases n)
  case 0
  with assms show ?thesis by simp
next
  case (Suc k)
  with assms obtain t1 s1 rest where
    a: "socket_action_loop (checkActions k env) env k s socket event_bitmask = Inr (t1, s1)"
    and b: "info_read_loop (checkActions k env) env k s1 = Inr (rest, s')"
    and t: "t = t1 @ rest"
    by (auto simp: and_then_returns)
  from socket_action_loop_shape [OF a] obtain subs curl_code sub where
    t1: "t1 = map (Curl_multi_socket_action socket event_bitmask CURLM_CALL_MULTI_PERFORM) subs
         @ [Curl_multi_socket_action socket event_bitmask curl_code sub]"
    and c: "curl_code \<noteq> CURLM_CALL_MULTI_PERFORM"
    by blast
  from info_read_loop_shape [OF b] have
    r: "\<forall>c \<in> set rest. drains c" "\<exists>m u. rest = Curl_multi_info_read m # u"
    by blast+
  from r(1) have "\<forall>c \<in> set rest. drains c \<and> \<not> is_socket_action c"
    using drains_not_socket_action by blast
  with t t1 c r(2) show ?thesis
    by (intro exI [of _ subs] exI [of _ curl_code] exI [of _ sub] exI [of _ rest]) simp
qed


theorem checkActions_drives_then_drains_witness:
  "checkActions 3 resubmitting (stub_loop busy_engine [] 1) 4 CURL_CSELECT_IN =
     Inr ([Curl_multi_socket_action 4 CURL_CSELECT_IN CURLM_CALL_MULTI_PERFORM [],
           Curl_multi_socket_action 4 CURL_CSELECT_IN CURLM_OK
             [Uv_timer_stop, Uv_timer_start On_uv_timeout_callback 5 0],
           Curl_multi_info_read (Some done_7),
           Curl_easy_getinfo_private 7,
           Curl_multi_remove_handle 7 [],
           Request_setRequestStatus \<lparr>stub_curl = 7, stub_status = None\<rparr> 28,
           IRequestCb_OnComplete
             \<lparr>m_request_handle = Some \<lparr>stub_curl = 7, stub_status = Some 28\<rparr>\<rparr>
             [Request_prepareForPerform \<lparr>stub_curl = 9, stub_status = None\<rparr>,
              Mutex_lock, Mutex_unlock, Uv_async_send],
           Curl_multi_info_read None],
          stub_loop idle_engine [request_of 9] 0)
   \<and> (\<exists>subs curl_code sub rest.
         [Curl_multi_socket_action 4 CURL_CSELECT_IN CURLM_CALL_MULTI_PERFORM [],
           Curl_multi_socket_action 4 CURL_CSELECT_IN CURLM_OK
             [Uv_timer_stop, Uv_timer_start On_uv_timeout_callback 5 0],
           Curl_multi_info_read (Some done_7),
           Curl_easy_getinfo_private 7,
           Curl_multi_remove_handle 7 [],
           Request_setRequestStatus \<lparr>stub_curl = 7, stub_status = None\<rparr> 28,
           IRequestCb_OnComplete
             \<lparr>m_request_handle = Some \<lparr>stub_curl = 7, stub_status = Some 28\<rparr>\<rparr>
             [Request_prepareForPerform \<lparr>stub_curl = 9, stub_status = None\<rparr>,
              Mutex_lock, Mutex_unlock, Uv_async_send],
           Curl_multi_info_read None]
         = map (Curl_multi_socket_action 4 CURL_CSELECT_IN CURLM_CALL_MULTI_PERFORM) subs
           @ Curl_multi_socket_action 4 CURL_CSELECT_IN curl_code sub # rest
       \<and> curl_code \<noteq> CURLM_CALL_MULTI_PERFORM
       \<and> (\<forall>c \<in> set rest. drains c \<and> \<not> is_socket_action c)
       \<and> (\<exists>m u. rest = Curl_multi_info_read m # u))"
proof -
  have run: "checkActions 3 resubmitting (stub_loop busy_engine [] 1) 4 CURL_CSELECT_IN =
     Inr ([Curl_multi_socket_action 4 CURL_CSELECT_IN CURLM_CALL_MULTI_PERFORM [],
           Curl_multi_socket_action 4 CURL_CSELECT_IN CURLM_OK
             [Uv_timer_stop, Uv_timer_start On_uv_timeout_callback 5 0],
           Curl_multi_info_read (Some done_7),
           Curl_easy_getinfo_private 7,
           Curl_multi_remove_handle 7 [],
           Request_setRequestStatus \<lparr>stub_curl = 7, stub_status = None\<rparr> 28,
           IRequestCb_OnComplete
             \<lparr>m_request_handle = Some \<lparr>stub_curl = 7, stub_status = Some 28\<rparr>\<rparr>
             [Request_prepareForPerform \<lparr>stub_curl = 9, stub_status = None\<rparr>,
              Mutex_lock, Mutex_unlock, Uv_async_send],
           Curl_multi_info_read None],
          stub_loop idle_engine [request_of 9] 0)"
    by code_simp
  show ?thesis by (rule conjI [OF run checkActions_drives_then_drains [OF run]])
qed

text \<open>
  The message loop processes every message whose kind is \<open>CURLMSG_DONE\<close> right after
  reading it, and goes on to the next read; a message of another kind is only read.
\<close>

lemma info_read_loop_DONE:
  assumes "curl_multi_info_read env (m_cmh s) = (Some message, e)"
  shows "info_read_loop chk env (Suc n) s =
     and_then (emit (Curl_multi_info_read (Some message)) (s\<lparr>m_cmh := e\<rparr>)) (\<lambda>s1.
     and_then (if msg message = CURLMSG_DONE then done_message chk env s1 message
               else Inr ([], s1))
       (info_read_loop chk env n))"
  using assms by (simp del: and_then_emit and_then_Inr)

lemma info_read_loop_dispatches:
  assumes "info_read_loop chk env n s = Inr (t, s')"
  shows "claimed_dispatch chk env s t s'"
  using assms
proof (induction n arbitrary: s t)
  case 0
  then show ?case by simp
next
  case (Suc n)
  obtain m e where ir: "curl_multi_info_read env (m_cmh s) = (m, e)"
    by (cases "curl_multi_info_read env (m_cmh s)") auto
  show ?case
  proof (cases m)
    case None
    with ir Suc.prems have "t = [Curl_multi_info_read None]" "s' = s\<lparr>m_cmh := e\<rparr>"
      by (simp_all add: emit_def)
    with ir None show ?thesis by (simp add: claimed_dispatch.no_message)
  next
    case (Some message)
    with ir Suc.prems obtain t1 s1 t2 where
      d: "(if msg message = CURLMSG_DONE then done_message chk env (s\<lparr>m_cmh := e\<rparr>) message
           else Inr ([], s\<lparr>m_cmh := e\<rparr>)) = Inr (t1, s1)"
      and l: "info_read_loop chk env n s1 = Inr (t2, s')"
      and t: "t = Curl_multi_info_read (Some message) # t1 @ t2"
      by (auto simp: and_then_returns emit_def simp del: and_then_Inr and_then_emit)
    from Suc.IH [OF l] have rest: "claimed_dispatch chk env s1 t2 s'" .
    show ?thesis
    proof (cases "msg message = CURLMSG_DONE")
      case False
      with d have "t1 = []" "s1 = s\<lparr>m_cmh := e\<rparr>" by simp_all
      with rest t ir Some False show ?thesis
        by (simp add: claimed_dispatch.other_message)
    next
      case True
      with d have dm: "done_message chk env (s\<lparr>m_cmh := e\<rparr>) message = Inr (t1, s1)" by simp
      from done_message_unfold [OF dm] obtain ns e2 sub1 s2 sub2 s4 where
        rm: "curl_multi_remove_handle env e (easy_handle message) = (ns, e2)"
        and cb: "callbacks chk env (s\<lparr>m_cmh := e2\<rparr>) ns = Inr (sub1, s2)"
        and su: "submit_all env s2
          (OnComplete env
             \<lparr>m_request_handle = Some (setRequestStatus env
                (curlinfo_private env e (easy_handle message)) (data_result message))\<rparr>
             (m_active_request_count s2)) = Inr (sub2, s4)"
        and t1: "t1 = [Curl_easy_getinfo_private (easy_handle message),
            Curl_multi_remove_handle (easy_handle message) sub1,
            Request_setRequestStatus (curlinfo_private env e (easy_handle message))
              (data_result message),
            IRequestCb_OnComplete
              \<lparr>m_request_handle = Some (setRequestStatus env
                 (curlinfo_private env e (easy_handle message)) (data_result message))\<rparr>
              sub2]"
        and s1: "s1 = s4\<lparr>m_active_request_count := m_active_request_count s4 - 1\<rparr>"
        by auto
      from ir Some have rd: "curl_multi_info_read env (m_cmh s) = (Some message, e)" by simp
      from rest s1 have rest': "claimed_dispatch chk env
          (s4\<lparr>m_active_request_count := m_active_request_count s4 - 1\<rparr>) t2 s'" by simp
      from claimed_dispatch.DONE_message [OF rd True refl rm cb refl su rest'] t t1
      show ?thesis by simp
    qed
  qed
qed

text \<open>
  C5. Whenever \<open>checkActions\<close> returns, the calls it made after driving the engine are
  the handling of the engine's messages one by one: for each \<open>DONE\<close> message read,
  and for no other, it reads the request handle from the private slot of the easy
  handle, removes the easy handle from the engine, sets the status of the handle to the
  result code of the message, calls \<open>OnComplete\<close> once with the request built around
  that handle, and then takes one off the count; the callback reads the count before
  this decrement. Over the whole run the count has gone down by one for each call of
  \<open>OnComplete\<close>, those made by engine callbacks inside \<open>curl_multi_socket_action\<close>
  and \<open>curl_multi_remove_handle\<close> included.
\<close>

theorem checkActions_dispatches_each_DONE:
  assumes "checkActions n env s socket event_bitmask = Inr (t, s')"
  shows "\<exists>k drive s1 drain.
      n = Suc k
    \<and> socket_action_loop (checkActions k env) env k s socket event_bitmask = Inr (drive, s1)
    \<and> t = drive @ drain
    \<and> claimed_dispatch (checkActions k env) env s1 drain s'
    \<and> m_active_request_count s' + of_nat (completed t) = m_active_request_count s"
proof (cases n)
  case 0
  with assms show ?thesis by simp
next
  case (Suc k)
  with assms obtain drive s1 drain where
    a: "socket_action_loop (checkActions k env) env k s socket event_bitmask = Inr (drive, s1)"
    and b: "info_read_loop (checkActions k env) env k s1 = Inr (drain, s')"
    and t: "t = drive @ drain"
    by (auto simp: and_then_returns)
  from info_read_loop_dispatches [OF b]
  have d: "claimed_dispatch (checkActions k env) env s1 drain s'" .
  from accounting_checkActions [of n env] assms
  have c: "m_active_request_count s' + of_nat (completed t) = m_active_request_count s"
    by (simp add: accounting_def accounts_def split: sum.splits prod.splits)
  from Suc a t d c show ?thesis by blast
qed

theorem checkActions_dispatches_each_DONE_witness:
  "checkActions 3 counting (stub_loop finished_engine [] 1) CURL_SOCKET_TIMEOUT 0 =
     Inr ([Curl_multi_socket_action CURL_SOCKET_TIMEOUT 0 CURLM_OK [],
           Curl_multi_info_read (Some done_7),
           Curl_easy_getinfo_private 7,
           Curl_multi_remove_handle 7 [],
           Request_setRequestStatus \<lparr>stub_curl = 7, stub_status = None\<rparr> 28,
           IRequestCb_OnComplete
             \<lparr>m_request_handle = Some \<lparr>stub_curl = 7, stub_status = Some 28\<rparr>\<rparr>
             [Request_prepareForPerform \<lparr>stub_curl = 9, stub_status = None\<rparr>,
              Mutex_lock, Mutex_unlock, Uv_async_send],
           Curl_multi_info_read None],
          stub_loop idle_engine [request_of 9] 0)
   \<and> (\<exists>k drive s1 drain.
        3 = Suc k
      \<and> socket_action_loop (checkActions k counting) counting k
           (stub_loop finished_engine [] 1) CURL_SOCKET_TIMEOUT 0 = Inr (drive, s1)
      \<and> [Curl_multi_socket_action CURL_SOCKET_TIMEOUT 0 CURLM_OK [],
           Curl_multi_info_read (Some done_7),
           Curl_easy_getinfo_private 7,
           Curl_multi_remove_handle 7 [],
           Request_setRequestStatus \<lparr>stub_curl = 7, stub_status = None\<rparr> 28,
           IRequestCb_OnComplete
             \<lparr>m_request_handle = Some \<lparr>stub_curl = 7, stub_status = Some 28\<rparr>\<rparr>
             [Request_prepareForPerform \<lparr>stub_curl = 9, stub_status = None\<rparr>,
              Mutex_lock, Mutex_unlock, Uv_async_send],
           Curl_multi_info_read None] = drive @ drain
      \<and> claimed_dispatch (checkActions k counting) counting s1 drain
           (stub_loop idle_engine [request_of 9] 0)
      \<and> m_active_request_count (stub_loop idle_engine [request_of 9] 0)
          + of_nat (completed
             [Curl_multi_socket_action CURL_SOCKET_TIMEOUT 0 CURLM_OK [],
              Curl_multi_info_read (Some done_7),
              Curl_easy_getinfo_private 7,
              Curl_multi_remove_handle 7 [],
              Request_setRequestStatus \<lparr>stub_curl = 7, stub_status = None\<rparr> 28,
              IRequestCb_OnComplete
                \<lparr>m_request_handle = Some \<lparr>stub_curl = 7, stub_status = Some 28\<rparr>\<rparr>
                [Request_prepareForPerform \<lparr>stub_curl = 9, stub_status = None\<rparr>,
                 Mutex_lock, Mutex_unlock, Uv_async_send],
              Curl_multi_info_read None])
          = m_active_request_count (stub_loop finished_engine [] 1))"
proof -
  have run: "checkActions 3 counting (stub_loop finished_engine [] 1) CURL_SOCKET_TIMEOUT 0 =
     Inr ([Curl_multi_socket_action CURL_SOCKET_TIMEOUT 0 CURLM_OK [],
           Curl_multi_info_read (Some done_7),
           Curl_easy_getinfo_private 7,
           Curl_multi_remove_handle 7 [],
           Request_setRequestStatus \<lparr>stub_curl = 7, stub_status = None\<rparr> 28,
           IRequestCb_OnComplete
             \<lparr>m_request_handle = Some \<lparr>stub_curl = 7, stub_status = Some 28\<rparr>\<rparr>
             [Request_prepareForPerform \<lparr>stub_curl = 9, stub_status = None\<rparr>,
              Mutex_lock, Mutex_unlock, Uv_async_send],
           Curl_multi_info_read None],
          stub_loop idle_engine [request_of 9] 0)"
    by code_simp
  show ?thesis by (rule conjI [OF run checkActions_dispatches_each_DONE [OF run]])
qed

text \<open>
  \<open>checkActions\<close> does return when the mutex is free, the engine makes no callback
  from \<open>curl_multi_socket_action\<close> and \<open>curl_multi_remove_handle\<close> and does not ask
  to be driven again, every request submitted by the user's callback can be prepared,
  and the engine has fewer messages than the bound: \<open>left\<close> measures the messages left
  in an engine state, and \<open>ok\<close> is what is known of the engine states met. The engines
  of the scripted stand-in with nothing to say to the driver are of this kind.
\<close>

lemma AddRequest_returns:
  assumes "\<not> m_pending_requests_lock s" and "m_request_handle r = Some h"
    and "prepareForPerform env h = Some h'"
  shows "\<exists>t s'. AddRequest env s r = Inr (t, s') \<and> \<not> m_pending_requests_lock s'
      \<and> m_cmh s' = m_cmh s"
  using assms by (simp add: AddRequest_def emit_def)

lemma submit_all_returns:
  assumes "\<not> m_pending_requests_lock s"
    and "\<forall>r \<in> set rs. \<exists>h h'. m_request_handle r = Some h \<and> prepareForPerform env h = Some h'"
  shows "\<exists>t s'. submit_all env s rs = Inr (t, s') \<and> \<not> m_pending_requests_lock s'
      \<and> m_cmh s' = m_cmh s"
  using assms
proof (induction rs arbitrary: s)
  case Nil
  then show ?case by simp
next
  case (Cons r rs)
  from Cons.prems(2) obtain h h' where
    "m_request_handle r = Some h" "prepareForPerform env h = Some h'" by auto
  from AddRequest_returns [OF Cons.prems(1) this] obtain t1 s1 where
    a: "AddRequest env s r = Inr (t1, s1)" "\<not> m_pending_requests_lock s1" "m_cmh s1 = m_cmh s"
    by blast
  from Cons.prems(2) have "\<forall>r \<in> set rs. \<exists>h h'. m_request_handle r = Some h
      \<and> prepareForPerform env h = Some h'" by simp
  from Cons.IH [OF a(2) this] obtain t2 s2 where
    "submit_all env s1 rs = Inr (t2, s2)" "\<not> m_pending_requests_lock s2" "m_cmh s2 = m_cmh s1"
    by blast
  with a show ?case by simp
qed

lemma done_message_returns:
  assumes "fst (curl_multi_remove_handle env (m_cmh s) (easy_handle message)) = []"
    and "submits_prepared env" and "\<not> m_pending_requests_lock s"
  shows "\<exists>t s'. done_message chk env s message = Inr (t, s') \<and> \<not> m_pending_requests_lock s'
      \<and> m_cmh s' = snd (curl_multi_remove_handle env (m_cmh s) (easy_handle message))"
proof -
  obtain ns e where rm:
    "curl_multi_remove_handle env (m_cmh s) (easy_handle message) = (ns, e)"
    by (cases "curl_multi_remove_handle env (m_cmh s) (easy_handle message)") auto
  with assms(1) have ns: "ns = []" by simp
  let ?request = "\<lparr>m_request_handle = Some (setRequestStatus env
      (curlinfo_private env (m_cmh s) (easy_handle message)) (data_result message))\<rparr>"
  let ?s2 = "s\<lparr>m_cmh := e\<rparr>"
  from assms(2) have "\<forall>r \<in> set (OnComplete env ?request (m_active_request_count ?s2)).
      \<exists>h h'. m_request_handle r = Some h \<and> prepareForPerform env h = Some h'"
    unfolding submits_prepared_def by blast
  from submit_all_returns [OF _ this, of ?s2] assms(3) obtain sub2 s4 where
    "submit_all env ?s2 (OnComplete env ?request (m_active_request_count ?s2)) = Inr (sub2, s4)"
    "\<not> m_pending_requests_lock s4" "m_cmh s4 = e"
    by auto
  with rm ns show ?thesis
    unfolding done_message_def Let_def
    by (simp add: emit_def inside_def)
qed

lemma info_read_loop_returns:
  assumes reads: "\<forall>e message e'. ok e \<longrightarrow> curl_multi_info_read env e = (Some message, e')
        \<longrightarrow> left e' < left e \<and> ok e'"
    and removes: "\<forall>e h. ok e \<longrightarrow> fst (curl_multi_remove_handle env e h) = []
        \<and> left (snd (curl_multi_remove_handle env e h)) \<le> left e
        \<and> ok (snd (curl_multi_remove_handle env e h))"
    and cb: "submits_prepared env"
    and "ok (m_cmh s)" and "\<not> m_pending_requests_lock s" and "left (m_cmh s) < n"
  shows "\<exists>t s'. info_read_loop chk env n s = Inr (t, s')"
  using assms(4,5,6)
proof (induction n arbitrary: s)
  case 0
  then show ?case by simp
next
  case (Suc n)
  obtain m e where ir: "curl_multi_info_read env (m_cmh s) = (m, e)"
    by (cases "curl_multi_info_read env (m_cmh s)") auto
  show ?case
  proof (cases m)
    case None
    with ir show ?thesis by (simp add: emit_def)
  next
    case (Some message)
    with ir reads Suc.prems(1) have less: "left e < left (m_cmh s)" and ok: "ok e" by blast+
    let ?s1 = "s\<lparr>m_cmh := e\<rparr>"
    have "\<exists>t1 s2. (if msg message = CURLMSG_DONE then done_message chk env ?s1 message
         else Inr ([], ?s1)) = Inr (t1, s2) \<and> \<not> m_pending_requests_lock s2
         \<and> left (m_cmh s2) \<le> left e \<and> ok (m_cmh s2)"
    proof (cases "msg message = CURLMSG_DONE")
      case True
      from removes ok
      have r: "fst (curl_multi_remove_handle env (m_cmh ?s1) (easy_handle message)) = []"
        "left (snd (curl_multi_remove_handle env e (easy_handle message))) \<le> left e"
        "ok (snd (curl_multi_remove_handle env e (easy_handle message)))"
        by simp_all
      from done_message_returns [OF r(1) cb, of chk] Suc.prems(2) obtain t1 s2 where
        "done_message chk env ?s1 message = Inr (t1, s2)" "\<not> m_pending_requests_lock s2"
        "m_cmh s2 = snd (curl_multi_remove_handle env (m_cmh ?s1) (easy_handle message))"
        by auto
      with r(2,3) True show ?thesis by (auto simp del: and_then_Inr)
    next
      case False
      with Suc.prems(2) ok show ?thesis by simp
    qed
    then obtain t1 s2 where
      step: "(if msg message = CURLMSG_DONE then done_message chk env ?s1 message
         else Inr ([], ?s1)) = Inr (t1, s2)"
      and l2: "\<not> m_pending_requests_lock s2" and m2: "left (m_cmh s2) \<le> left e"
      and ok2: "ok (m_cmh s2)"
      by blast
    from m2 less Suc.prems(3) have "left (m_cmh s2) < n" by simp
    from Suc.IH [OF ok2 l2 this] obtain t2 s' where "info_read_loop chk env n s2 = Inr (t2, s')"
      by blast
    with step ir Some show ?thesis by (simp add: emit_def)
  qed
qed

lemma checkActions_returns:
  assumes drives: "\<forall>e socket ev. ok e \<longrightarrow> fst (curl_multi_socket_action env e socket ev) = []
        \<and> fst (snd (curl_multi_socket_action env e socket ev)) \<noteq> CURLM_CALL_MULTI_PERFORM
        \<and> left (snd (snd (curl_multi_socket_action env e socket ev))) \<le> left e
        \<and> ok (snd (snd (curl_multi_socket_action env e socket ev)))"
    and reads: "\<forall>e message e'. ok e \<longrightarrow> curl_multi_info_read env e = (Some message, e')
        \<longrightarrow> left e' < left e \<and> ok e'"
    and removes: "\<forall>e h. ok e \<longrightarrow> fst (curl_multi_remove_handle env e h) = []
        \<and> left (snd (curl_multi_remove_handle env e h)) \<le> left e
        \<and> ok (snd (curl_multi_remove_handle env e h))"
    and cb: "submits_prepared env"
    and ok: "ok (m_cmh s)" and free: "\<not> m_pending_requests_lock s"
    and fuel: "left (m_cmh s) < n"
  shows "\<exists>t s'. checkActions (Suc n) env s socket event_bitmask = Inr (t, s')"
proof -
  obtain ns curl_code e where sa:
    "curl_multi_socket_action env (m_cmh s) socket event_bitmask = (ns, curl_code, e)"
    by (cases "curl_multi_socket_action env (m_cmh s) socket event_bitmask") auto
  from drives ok have
    "fst (curl_multi_socket_action env (m_cmh s) socket event_bitmask) = []"
    "fst (snd (curl_multi_socket_action env (m_cmh s) socket event_bitmask))
       \<noteq> CURLM_CALL_MULTI_PERFORM"
    "left (snd (snd (curl_multi_socket_action env (m_cmh s) socket event_bitmask)))
       \<le> left (m_cmh s)"
    "ok (snd (snd (curl_multi_socket_action env (m_cmh s) socket event_bitmask)))"
    by simp_all
  with sa have ns: "ns = []" and code: "curl_code \<noteq> CURLM_CALL_MULTI_PERFORM"
    and le: "left e \<le> left (m_cmh s)" and ok': "ok e"
    by simp_all
  from fuel obtain k where k: "n = Suc k" by (cases n) auto
  from sa ns code k have drive: "socket_action_loop (checkActions n env) env n s socket event_bitmask
      = Inr ([Curl_multi_socket_action socket event_bitmask curl_code []], s\<lparr>m_cmh := e\<rparr>)"
    by (simp add: inside_def)
  from le fuel have "left (m_cmh (s\<lparr>m_cmh := e\<rparr>)) < n" by simp
  from info_read_loop_returns [OF reads removes cb _ _ this, of "checkActions n env"] free ok'
  obtain t2 s' where "info_read_loop (checkActions n env) env n (s\<lparr>m_cmh := e\<rparr>) = Inr (t2, s')"
    by auto
  with drive show ?thesis by simp
qed

lemma checkActions_returns_counting:
  assumes "socket_action_script e = []" and "remove_handle_script e = []"
  shows "\<exists>t s'. checkActions (Suc (Suc (length (info_read_script e)))) counting
      (stub_loop e q c) socket event_bitmask = Inr (t, s')"
proof (rule checkActions_returns [where
      ok = "\<lambda>e. socket_action_script e = [] \<and> remove_handle_script e = []"
      and left = "\<lambda>e. length (info_read_script e)"])
  show "\<forall>e socket ev. socket_action_script e = [] \<and> remove_handle_script e = [] \<longrightarrow>
      fst (curl_multi_socket_action counting e socket ev) = []
      \<and> fst (snd (curl_multi_socket_action counting e socket ev)) \<noteq> CURLM_CALL_MULTI_PERFORM
      \<and> length (info_read_script (snd (snd (curl_multi_socket_action counting e socket ev))))
          \<le> length (info_read_script e)
      \<and> (socket_action_script (snd (snd (curl_multi_socket_action counting e socket ev))) = []
         \<and> remove_handle_script (snd (snd (curl_multi_socket_action counting e socket ev))) = [])"
    by (simp add: counting_def stub_def consts_defs)
  show "\<forall>e message e'. socket_action_script e = [] \<and> remove_handle_script e = [] \<longrightarrow>
      curl_multi_info_read counting e = (Some message, e') \<longrightarrow>
      length (info_read_script e') < length (info_read_script e)
      \<and> (socket_action_script e' = [] \<and> remove_handle_script e' = [])"
    by (auto simp: counting_def stub_def split: list.splits)
  show "\<forall>e h. socket_action_script e = [] \<and> remove_handle_script e = [] \<longrightarrow>
      fst (curl_multi_remove_handle counting e h) = []
      \<and> length (info_read_script (snd (curl_multi_remove_handle counting e h)))
          \<le> length (info_read_script e)
      \<and> (socket_action_script (snd (curl_multi_remove_handle counting e h)) = []
         \<and> remove_handle_script (snd (curl_multi_remove_handle counting e h)) = [])"
    by (simp add: counting_def stub_def)
  show "submits_prepared counting"
    by (simp add: submits_prepared_def counting_def stub_def request_of_def)
  show "socket_action_script (m_cmh (stub_loop e q c)) = []
      \<and> remove_handle_script (m_cmh (stub_loop e q c)) = []"
    using assms by (simp add: stub_loop_def)
  show "\<not> m_pending_requests_lock (stub_loop e q c)" by (simp add: stub_loop_def)
  show "length (info_read_script (m_cmh (stub_loop e q c))) < Suc (length (info_read_script e))"
    by (simp add: stub_loop_def)
qed

subsection \<open>The wakeup callback\<close>



lemma accept_loop_returns:
  assumes "\<forall>r \<in> set rs. m_request_handle r \<noteq> None"
    and "\<forall>e h. fst (curl_multi_add_handle env e h) = []"
  shows "\<exists>t s'. accept_loop chk env s i rs = Inr (t, s')"
  using assms(1)
proof (induction rs arbitrary: s i)
  case Nil
  show ?case by simp
next
  case (Cons request rest)
  from Cons.prems obtain h where h: "m_request_handle request = Some h" by auto
  obtain ns e where ah: "curl_multi_add_handle env (m_cmh s) (m_curl_handle env h) = (ns, e)"
    by (cases "curl_multi_add_handle env (m_cmh s) (m_curl_handle env h)") auto
  with assms(2) have ns: "ns = []" by (metis fst_conv)
  let ?s0 = "s\<lparr>m_pending_requests := (m_pending_requests s)[i := \<lparr>m_request_handle = None\<rparr>],
               m_cmh := e\<rparr>"
  from Cons.prems have "\<forall>r \<in> set rest. m_request_handle r \<noteq> None" by simp
  from Cons.IH [OF this, of ?s0 "Suc i"] obtain t s' where
    "accept_loop chk env ?s0 (Suc i) rest = Inr (t, s')" by blast
  with h ah ns show ?case by (simp add: inside_def)
qed

lemma requests_accept_async_returns:
  assumes "\<not> m_pending_requests_lock s"
    and "\<forall>r \<in> set (m_pending_requests s). m_request_handle r \<noteq> None"
    and "\<forall>e h. fst (curl_multi_add_handle env e h) = []"
  shows "\<exists>t s'. requests_accept_async n env s = Inr (t, s')"
proof -
  from accept_loop_returns [OF assms(2,3), of "checkActions n env"
      "s\<lparr>m_pending_requests_lock := True\<rparr>" 0]
  obtain t s' where "accept_loop (checkActions n env) env
      (s\<lparr>m_pending_requests_lock := True\<rparr>) 0 (m_pending_requests s) = Inr (t, s')"
    by blast
  with assms(1) show ?thesis
    by (simp add: requests_accept_async_def emit_def)
qed







end
